theory Spec2Isabelle
  imports Main
begin

section \<open>Errors, strings and characters\<close>

text \<open>
  The crawler of \<^verbatim>\<open>src/scrapemonster/crawlers.py\<close> is embedded function by function.
  An exception of the source is a value: a computation that may raise has the type
  \<open>error + 'a\<close>, with \<open>Inl\<close> for the exception.

  A Python \<open>str\<close> is modelled as a \<open>string\<close>; the character with number \<open>n\<close> stands for
  the code point \<open>U+n\<close>, so the model covers the texts whose code points are below 256.
  On these code points the character classes of Python 3 are the ones below. Beyond them
  \<open>\d\<close> and \<open>\s\<close> hold more characters (every decimal digit and every space of Unicode),
  while \<open>[0-9]\<close> and \<open>[a-zA-Z]\<close> do not: the classes are kept apart by name, also where
  they hold the same characters of the model.
\<close>

datatype error = ValueError | TypeError | TimeoutError | PlaywrightError

definition newline :: char where
  "newline = CHR 0x0A"

definition tab :: char where
  "tab = CHR 0x09"

definition is_space :: "char \<Rightarrow> bool" where
  \<comment> \<open>\<open>str.isspace\<close>, and \<open>\s\<close> of a \<open>str\<close> pattern\<close>
  "is_space c = ((of_char c :: nat) \<in> {9, 10, 11, 12, 13, 28, 29, 30, 31, 32, 133, 160})"

definition is_decimal :: "char \<Rightarrow> bool" where
  \<comment> \<open>\<open>\d\<close> of a \<open>str\<close> pattern (the decimal digits of Unicode; below \<open>U+0100\<close> they are
    \<open>0\<close> to \<open>9\<close>); also the characters \<open>int\<close> reads as a digit\<close>
  "is_decimal c = (48 \<le> (of_char c :: nat) \<and> (of_char c :: nat) \<le> 57)"

definition is_ascii_digit :: "char \<Rightarrow> bool" where
  \<comment> \<open>\<open>[0-9]\<close>\<close>
  "is_ascii_digit c = (48 \<le> (of_char c :: nat) \<and> (of_char c :: nat) \<le> 57)"

definition is_digit :: "char \<Rightarrow> bool" where
  \<comment> \<open>the characters \<open>str.isdigit\<close> accepts: the decimals and the superscripts
    \<open>U+00B2\<close>, \<open>U+00B3\<close>, \<open>U+00B9\<close>\<close>
  "is_digit c = (is_decimal c \<or> (of_char c :: nat) \<in> {178, 179, 185})"

definition is_ascii_letter :: "char \<Rightarrow> bool" where
  \<comment> \<open>\<open>[a-zA-Z]\<close>\<close>
  "is_ascii_letter c =
     ((65 \<le> (of_char c :: nat) \<and> (of_char c :: nat) \<le> 90) \<or>
      (97 \<le> (of_char c :: nat) \<and> (of_char c :: nat) \<le> 122))"

definition is_ascii_alnum :: "char \<Rightarrow> bool" where
  \<comment> \<open>\<open>[a-zA-Z0-9]\<close>\<close>
  "is_ascii_alnum c = (is_ascii_letter c \<or> is_ascii_digit c)"

definition str_isdigit :: "string \<Rightarrow> bool" where
  "str_isdigit s = (s \<noteq> [] \<and> list_all is_digit s)"

definition str_strip :: "string \<Rightarrow> string" where
  "str_strip s = rev (dropWhile is_space (rev (dropWhile is_space s)))"

fun str_join :: "string \<Rightarrow> string list \<Rightarrow> string" where
  "str_join sep [] = []"
| "str_join sep [x] = x"
| "str_join sep (x # y # ys) = x @ sep @ str_join sep (y # ys)"

definition int_of_char :: "char \<Rightarrow> error + int" where
  \<comment> \<open>\<open>int(d)\<close> on a string of one character: only a decimal is a literal\<close>
  "int_of_char c = (if is_decimal c then Inr (int (of_char c) - 48) else Inl ValueError)"

fun collect :: "(error + 'a) list \<Rightarrow> error + 'a list" where
  \<comment> \<open>the results in order, or the first exception\<close>
  "collect [] = Inr []"
| "collect (r # rs) =
     (case r of
        Inl e \<Rightarrow> Inl e
      | Inr v \<Rightarrow> (case collect rs of Inl e \<Rightarrow> Inl e | Inr vs \<Rightarrow> Inr (v # vs)))"

section \<open>The regular expressions of the source\<close>

text \<open>
  Every pattern of the source is a sequence of character classes, each with a greedy
  repetition \<open>{lo,hi}\<close>. \<open>match_here\<close> is the backtracking matcher of \<open>re\<close> on such a
  pattern: it tries the longest repetition first and gives the rest of the input after
  the first match found; \<open>final\<close> is the test at the end of the pattern (\<open>$\<close>).
\<close>

datatype item = Rep "char \<Rightarrow> bool" nat "nat option"

type_synonym regex = "item list"

fun first_some :: "'a option list \<Rightarrow> 'a option" where
  "first_some [] = None"
| "first_some (x # xs) = (case x of Some v \<Rightarrow> Some v | None \<Rightarrow> first_some xs)"

fun match_here :: "regex \<Rightarrow> (string \<Rightarrow> bool) \<Rightarrow> string \<Rightarrow> string option" where
  "match_here [] final s = (if final s then Some s else None)"
| "match_here (Rep p lo hi # r) final s =
     (let run = length (takeWhile p s);
          top = (case hi of None \<Rightarrow> run | Some h \<Rightarrow> min h run)
      in first_some (map (\<lambda>n. match_here r final (drop n s)) (rev [lo..<Suc top])))"

definition anywhere :: "string \<Rightarrow> bool" where
  "anywhere rest = True"

definition at_end :: "string \<Rightarrow> bool" where
  \<comment> \<open>\<open>$\<close>: at the end of the string, or before a newline that ends it\<close>
  "at_end rest = (rest = [] \<or> rest = [newline])"

definition re_search :: "regex \<Rightarrow> (string \<Rightarrow> bool) \<Rightarrow> string \<Rightarrow> bool" where
  \<comment> \<open>whether \<open>re.search\<close> finds a match (the source only tests the result)\<close>
  "re_search r final s =
     list_ex (\<lambda>i. match_here r final (drop i s) \<noteq> None) [0..<Suc (length s)]"

function re_split :: "regex \<Rightarrow> string \<Rightarrow> string list" where
  "re_split r s =
     (if s = [] then [[]]
      else case match_here r anywhere s of
             Some rest \<Rightarrow>
               if length rest < length s then [] # re_split r rest
               else (let ts = re_split r (tl s) in (hd s # hd ts) # tl ts)
           | None \<Rightarrow> (let ts = re_split r (tl s) in (hd s # hd ts) # tl ts))"
  by pat_completeness auto
termination
  by (relation "measure (\<lambda>(r, s). length s)") auto

function re_sub :: "regex \<Rightarrow> string \<Rightarrow> string \<Rightarrow> string" where
  "re_sub r repl s =
     (if s = [] then []
      else case match_here r anywhere s of
             Some rest \<Rightarrow>
               if length rest < length s then repl @ re_sub r repl rest
               else hd s # re_sub r repl (tl s)
           | None \<Rightarrow> hd s # re_sub r repl (tl s))"
  by pat_completeness auto
termination
  by (relation "measure (\<lambda>(r, repl, s). length s)") auto

definition re_sub_start :: "regex \<Rightarrow> string \<Rightarrow> string \<Rightarrow> string" where
  \<comment> \<open>\<open>re.sub\<close> of a pattern that starts with \<open>^\<close>: the only match is at position 0\<close>
  "re_sub_start r repl s =
     (case match_here r anywhere s of Some rest \<Rightarrow> repl @ rest | None \<Rightarrow> s)"

definition quantity_re :: regex where
  \<comment> \<open>\<^verbatim>\<open>" \d+[a-zA-Z]{1,2}\."\<close>, followed by \<open>$\<close>\<close>
  "quantity_re =
     [Rep (\<lambda>c. c = CHR '' '') 1 (Some 1), Rep is_decimal 1 None,
      Rep is_ascii_letter 1 (Some 2), Rep (\<lambda>c. c = CHR ''.'') 1 (Some 1)]"

definition whitespace_re :: regex where
  \<comment> \<open>\<^verbatim>\<open>"\s+"\<close>\<close>
  "whitespace_re = [Rep is_space 1 None]"

definition non_alnum_re :: regex where
  \<comment> \<open>\<^verbatim>\<open>"[^a-zA-Z0-9]"\<close>\<close>
  "non_alnum_re = [Rep (\<lambda>c. \<not> is_ascii_alnum c) 1 (Some 1)]"

definition paren_re :: regex where
  \<comment> \<open>\<^verbatim>\<open>"\(.+\)\s*"\<close>, after \<open>^\<close>; the dot is any character but a newline\<close>
  "paren_re =
     [Rep (\<lambda>c. c = CHR ''('') 1 (Some 1), Rep (\<lambda>c. c \<noteq> newline) 1 None,
      Rep (\<lambda>c. c = CHR '')'') 1 (Some 1), Rep is_space 0 None]"

definition blank_re :: regex where
  \<comment> \<open>\<^verbatim>\<open>"[ \t]+"\<close>\<close>
  "blank_re = [Rep (\<lambda>c. c = CHR '' '' \<or> c = tab) 1 None]"

section \<open>The barcode validator\<close>

definition is_valid_ean13 :: "string \<Rightarrow> error + bool" where
  "is_valid_ean13 ean =
     (if \<not> str_isdigit ean \<or> length ean \<noteq> 13 then Inr False
      else case collect (map int_of_char ean) of
             Inl e \<Rightarrow> Inl e
           | Inr digits \<Rightarrow>
               (let checksum =
                      (10 - (sum_list (map (\<lambda>i. digits ! i * (if i mod 2 \<noteq> 0 then 3 else 1))
                                         [0..<12]) mod 10)) mod 10
                in Inr (checksum = digits ! 12)))"

section \<open>The extraction task\<close>

text \<open>
  \<open>name_quantity\<close> is the code between the lines \<open>quantity = None\<close> and \<open>sku = \<dots>\<close> of
  \<open>extract_product_info\<close>: it gives the final values of \<open>name\<close> and \<open>quantity\<close>.
\<close>

definition name_quantity :: "string \<Rightarrow> string \<times> string option" where
  "name_quantity name =
     (if re_search quantity_re at_end name
      then (re_sub_start paren_re [] (str_join '' '' (butlast (re_split whitespace_re name))),
            Some (re_sub non_alnum_re [] (last (re_split whitespace_re name))))
      else (name, None))"

definition barcode_of :: "string \<Rightarrow> error + string option" where
  "barcode_of sku_content =
     (let sku = last (re_split whitespace_re (str_strip sku_content))
      in case is_valid_ean13 sku of
           Inl e \<Rightarrow> Inl e
         | Inr valid \<Rightarrow> Inr (if valid then Some (''EAN-13 '' @ sku) else None))"

definition details_of :: "error + string \<Rightarrow> error + string option" where
  \<comment> \<open>the \<open>try\<close> block: only \<open>TimeoutError\<close> is caught\<close>
  "details_of content =
     (case content of
        Inr details \<Rightarrow> Inr (Some (str_strip (re_sub blank_re '' '' details)))
      | Inl e \<Rightarrow> if e = TimeoutError then Inr None else Inl e)"

definition labels_of :: "string option list \<Rightarrow> error + string list" where
  \<comment> \<open>\<open>str.strip\<close> of an attribute that is missing (\<open>None\<close>) is a \<open>TypeError\<close>\<close>
  "labels_of alts =
     (case collect (map (\<lambda>a. case a of None \<Rightarrow> Inl TypeError | Some l \<Rightarrow> Inr (str_strip l)) alts) of
        Inl e \<Rightarrow> Inl e
      | Inr ls \<Rightarrow> Inr (filter (\<lambda>l. l \<noteq> []) ls))"

datatype 'f pyval = PyNone | PyStr string | PyFloat 'f | PyList "'f pyval list"

definition opt_str :: "string option \<Rightarrow> 'f pyval" where
  "opt_str v = (case v of None \<Rightarrow> PyNone | Some s \<Rightarrow> PyStr s)"

text \<open>
  What the browser answers during one run of the task: the outcome of each call, in the
  order of the calls. \<open>launch_result\<close> is the handle of the browser a launch gives.
\<close>

record site =
  launch_result :: "error + nat"
  new_page_result :: "error option"
  goto_result :: "error option"
  name_content :: "error + string"
  image_srcs :: "error + string option list"
  sku_content :: "error + string"
  details_content :: "error + string"
  price_content :: "error + string"
  label_alts :: "error + string option list"

text \<open>
  \<open>scrape_page\<close> is the body of the task from \<open>page.goto\<close> to the dictionary \<open>data\<close>.
  \<open>float\<close> is Python's own: it is the parameter \<open>float_of\<close>, \<open>None\<close> where \<open>float\<close>
  raises \<open>ValueError\<close>. The dictionary is the list of its items in insertion order.
\<close>

definition and_then :: "error + 'a \<Rightarrow> ('a \<Rightarrow> error + 'b) \<Rightarrow> error + 'b" where
  \<comment> \<open>one statement after another: an exception ends the sequence\<close>
  "and_then r f = (case r of Inl e \<Rightarrow> Inl e | Inr v \<Rightarrow> f v)"

definition raise_if :: "error option \<Rightarrow> error + unit" where
  "raise_if r = (case r of Some e \<Rightarrow> Inl e | None \<Rightarrow> Inr ())"

definition or_raise :: "'a option \<Rightarrow> error \<Rightarrow> error + 'a" where
  "or_raise v e = (case v of None \<Rightarrow> Inl e | Some x \<Rightarrow> Inr x)"

definition scrape_page ::
  "(string \<Rightarrow> 'f option) \<Rightarrow> site \<Rightarrow> string \<Rightarrow> error + (string \<times> 'f pyval) list" where
  "scrape_page float_of web on_url =
     and_then (raise_if (goto_result web)) (\<lambda>_.
     and_then (name_content web) (\<lambda>name.
     and_then (image_srcs web) (\<lambda>images.
     and_then (sku_content web) (\<lambda>sku.
     and_then (barcode_of sku) (\<lambda>barcode.
     and_then (details_of (details_content web)) (\<lambda>details.
     and_then (price_content web) (\<lambda>price.
     and_then (or_raise (float_of price) ValueError) (\<lambda>price'.
     and_then (label_alts web) (\<lambda>alts.
     and_then (labels_of alts) (\<lambda>labels.
       Inr [(''name'', PyStr (fst (name_quantity name))),
            (''quantity'', opt_str (snd (name_quantity name))),
            (''price'', PyFloat price'),
            (''images'', PyList (map opt_str images)),
            (''barcode'', opt_str barcode),
            (''labels'', PyList (map PyStr labels)),
            (''store_url'', PyStr on_url)]))))))))))"

text \<open>
  The session: what the task does to browsers and pages is the list of its events.
  \<open>extract_product_info\<close> gives the events of one run and its outcome.
\<close>

datatype event = Launched nat | PageOpened nat | PageClosed nat | BrowserClosed nat

definition run_on_browser ::
  "(string \<Rightarrow> 'f option) \<Rightarrow> site \<Rightarrow> string \<Rightarrow> bool \<Rightarrow> nat \<Rightarrow> event list \<Rightarrow>
     event list \<times> (error + (string \<times> 'f pyval) list)" where
  "run_on_browser float_of web on_url close_browser browser events =
     (case new_page_result web of
        Some e \<Rightarrow> (events, Inl e)
      | None \<Rightarrow>
          (case scrape_page float_of web on_url of
             Inl e \<Rightarrow> (events @ [PageOpened browser], Inl e)
           | Inr data \<Rightarrow>
               (events @ [PageOpened browser, PageClosed browser] @
                  (if close_browser then [BrowserClosed browser] else []),
                Inr data)))"

definition extract_product_info ::
  "(string \<Rightarrow> 'f option) \<Rightarrow> site \<Rightarrow> string \<Rightarrow> nat option \<Rightarrow>
     event list \<times> (error + (string \<times> 'f pyval) list)" where
  "extract_product_info float_of web on_url browser =
     (case browser of
        None \<Rightarrow>
          (case launch_result web of
             Inl e \<Rightarrow> ([], Inl e)
           | Inr b \<Rightarrow> run_on_browser float_of web on_url True b [Launched b])
      | Some b \<Rightarrow> run_on_browser float_of web on_url False b [])"

definition still_open :: "event list \<Rightarrow> nat \<Rightarrow> bool" where
  "still_open events b = (Launched b \<in> set events \<and> BrowserClosed b \<notin> set events)"

section \<open>The stabilization loop of the product discovery\<close>

text \<open>
  The page is a state of any type \<open>'p\<close>; the browser is the record of what its calls do
  to the page and answer: a growth source is any such record. Every call can raise, and
  \<open>find_product_pages\<close> catches nothing: the first exception ends it. \<open>open_page\<close> stands
  for \<open>launch\<close>, \<open>new_page\<close> and \<open>goto\<close>; \<open>product_hrefs\<close> for \<open>locator(...).all()\<close> and the
  \<open>get_attribute("href")\<close> of each product. \<open>scroll_state\<close> holds the variables of
  \<open>find_product_pages\<close> that the loop reads and writes.
\<close>

record 'p page_ops =
  open_page :: "string \<Rightarrow> error + 'p"
  mouse_wheel :: "'p \<Rightarrow> error + 'p"
  wait_for_timeout :: "nat \<Rightarrow> 'p \<Rightarrow> error + 'p"
  locator_count :: "'p \<Rightarrow> error + nat"
  product_hrefs :: "'p \<Rightarrow> error + string option list"

record 'p scroll_state =
  page :: 'p
  product_counts :: "nat list"
  last_product_count :: nat
  total_wait_time :: nat

definition wait_time :: nat where
  "wait_time = 500"

definition max_wait_time :: nat where
  "max_wait_time = 300000"

definition deque_append :: "nat \<Rightarrow> 'a list \<Rightarrow> 'a \<Rightarrow> 'a list" where
  \<comment> \<open>\<open>append\<close> on a \<open>deque\<close> of the given \<open>maxlen\<close>: a full one drops its oldest entries\<close>
  "deque_append maxlen d x = drop (length (d @ [x]) - maxlen) (d @ [x])"

definition scroll_once :: "'p page_ops \<Rightarrow> 'p scroll_state \<Rightarrow> error + 'p scroll_state" where
  \<comment> \<open>one round of the \<open>for\<close>: scroll, wait \<open>wait_time\<close>, count \<open>wait_time\<close>\<close>
  "scroll_once ops s =
     and_then (mouse_wheel ops (page s)) (\<lambda>p.
     and_then (wait_for_timeout ops wait_time p) (\<lambda>p'.
       Inr (s\<lparr>page := p', total_wait_time := total_wait_time s + wait_time\<rparr>)))"

definition loop_body :: "'p page_ops \<Rightarrow> 'p scroll_state \<Rightarrow> error + 'p scroll_state" where
  \<comment> \<open>the body of the \<open>while\<close>: after the wait of 2000 the counter gets \<open>wait_time\<close>\<close>
  "loop_body ops s =
     and_then (((\<lambda>r. and_then r (scroll_once ops)) ^^ 3) (Inr s)) (\<lambda>s'.
     and_then (wait_for_timeout ops 2000 (page s')) (\<lambda>p.
     and_then (locator_count ops p) (\<lambda>n.
       Inr (s'\<lparr>page := p,
               last_product_count := n,
               product_counts := deque_append 3 (product_counts s') n,
               total_wait_time := total_wait_time s' + wait_time\<rparr>))))"

definition keep_scrolling :: "'p scroll_state \<Rightarrow> bool" where
  \<comment> \<open>the condition of the \<open>while\<close>\<close>
  "keep_scrolling s =
     (count_list (product_counts s) (last_product_count s) < 3 \<and>
      total_wait_time s < max_wait_time)"

function scroll_loop :: "'p page_ops \<Rightarrow> 'p scroll_state \<Rightarrow> error + 'p scroll_state" where
  "scroll_loop ops s =
     (if keep_scrolling s
      then (case loop_body ops s of Inl e \<Rightarrow> Inl e | Inr s' \<Rightarrow> scroll_loop ops s')
      else Inr s)"
  by pat_completeness auto
termination
  by (relation "measure (\<lambda>(ops, s). max_wait_time - total_wait_time s)")
     (auto simp: keep_scrolling_def loop_body_def scroll_once_def and_then_def numeral_3_eq_3
        wait_time_def max_wait_time_def split: sum.splits)

definition initial_state :: "'p \<Rightarrow> nat \<Rightarrow> 'p scroll_state" where
  \<comment> \<open>the variables when the \<open>while\<close> is reached: an empty buffer, the counter at 0\<close>
  "initial_state p n =
     \<lparr>page = p, product_counts = [], last_product_count = n, total_wait_time = 0\<rparr>"

definition find_product_pages :: "'p page_ops \<Rightarrow> string \<Rightarrow> error + string option list" where
  "find_product_pages ops on_url =
     and_then (open_page ops on_url) (\<lambda>p.
     and_then (wait_for_timeout ops 3000 p) (\<lambda>p'.
     and_then (locator_count ops p') (\<lambda>n.
     and_then (scroll_loop ops (initial_state p' n)) (\<lambda>s.
       product_hrefs ops (page s)))))"

definition plateau :: "'p scroll_state \<Rightarrow> bool" where
  \<comment> \<open>the ring buffer holds 3 samples and each is the latest sample\<close>
  "plateau s =
     (length (product_counts s) = 3 \<and> list_all (\<lambda>n. n = last_product_count s) (product_counts s))"

definition stops :: "'p scroll_state \<Rightarrow> bool" where
  \<comment> \<open>the stop condition the loop implements\<close>
  "stops s = (plateau s \<or> max_wait_time \<le> total_wait_time s)"

section \<open>The pipeline\<close>

primrec chain_from_iterable :: "'a list list \<Rightarrow> 'a list" where
  "chain_from_iterable [] = []"
| "chain_from_iterable (xs # xss) = xs @ chain_from_iterable xss"

text \<open>
  Modelled from the spec: the task-execution substrate (the decorators and the \<open>map\<close> of
  the workflow library, which is not part of the repository). Sections 4.4, 4.5 and 6 of the
  specification: an ordered fan-out whose aggregated result keeps the order of the inputs,
  and one automatic retry on any unhandled failure, then a terminal error.
  \<open>attempt retries i body\<close> runs \<open>body\<close> from attempt \<open>i\<close> on and gives the number of attempts
  made and the outcome of the last; \<open>map_result\<close> is \<open>task.map(inputs).result()\<close>, which
  raises the first failure.
\<close>

fun attempt :: "nat \<Rightarrow> nat \<Rightarrow> (nat \<Rightarrow> error + 'a) \<Rightarrow> nat \<times> (error + 'a)" where
  "attempt 0 i body = (Suc i, body i)"
| "attempt (Suc retries) i body =
     (case body i of
        Inr v \<Rightarrow> (Suc i, Inr v)
      | Inl e \<Rightarrow> attempt retries (Suc i) body)"

definition task_run :: "nat \<Rightarrow> (nat \<Rightarrow> error + 'a) \<Rightarrow> nat \<times> (error + 'a)" where
  "task_run retries body = attempt retries 0 body"

definition map_result :: "('a \<Rightarrow> error + 'b) \<Rightarrow> 'a list \<Rightarrow> error + 'b list" where
  "map_result task inputs = collect (map task inputs)"

text \<open>
  The extraction task as the flow runs it: \<open>retries=1\<close>, no browser passed. \<open>web i url\<close> is
  what the browser answers for \<open>url\<close> during attempt \<open>i\<close>.
\<close>

definition extract_product_info_task ::
  "(string \<Rightarrow> 'f option) \<Rightarrow> (nat \<Rightarrow> string \<Rightarrow> site) \<Rightarrow> string \<Rightarrow>
     nat \<times> (error + (string \<times> 'f pyval) list)" where
  "extract_product_info_task float_of web on_url =
     task_run 1 (\<lambda>i. snd (extract_product_info float_of (web i on_url) on_url None))"

definition get_products ::
  "(string \<Rightarrow> 'f option) \<Rightarrow> (nat \<Rightarrow> string \<Rightarrow> site) \<Rightarrow> string list \<Rightarrow>
     error + (string \<times> 'f pyval) list list" where
  \<comment> \<open>the records handed to \<open>write_results\<close>, one line of the output file each\<close>
  "get_products float_of web product_links =
     map_result (\<lambda>url. snd (extract_product_info_task float_of web url)) product_links"

definition written_records :: "error + 'a list \<Rightarrow> 'a list" where
  \<comment> \<open>a flow that raises writes nothing\<close>
  "written_records out = (case out of Inl e \<Rightarrow> [] | Inr records \<Rightarrow> records)"

definition main_flow ::
  "(string \<Rightarrow> error + string list) \<Rightarrow> (string \<Rightarrow> error + string list) \<Rightarrow>
     (string list \<Rightarrow> error + 'r) \<Rightarrow> string list \<Rightarrow> error + 'r" where
  "main_flow find_category_pages' find_product_pages' get_products' nav_links =
     and_then (map_result find_category_pages' nav_links) (\<lambda>category_pages.
     and_then (map_result find_product_pages' (chain_from_iterable category_pages))
       (\<lambda>products_pages. get_products' (chain_from_iterable products_pages)))"

section \<open>The cache policy of the extraction task\<close>

text \<open>
  Modelled from the spec: the cache layer of the substrate. Section 4.3: the fingerprint
  is a hash of the task identity and of the input arguments, with an explicit per-task
  exclusion list. A policy is \<open>INPUTS\<close> (the arguments but the excluded ones),
  \<open>TASK_SOURCE\<close> (the task identity) or a sum of policies; \<open>policy_sub\<close> is the \<open>-\<close>
  of the source, which excludes an argument, \<open>policy_add\<close> its \<open>+\<close>. The hash functions
  are parameters.
\<close>

datatype cache_policy = Inputs "string list" | TaskSource | Compound "cache_policy list"

definition INPUTS :: cache_policy where
  "INPUTS = Inputs []"

definition TASK_SOURCE :: cache_policy where
  "TASK_SOURCE = TaskSource"

definition policy_add :: "cache_policy \<Rightarrow> cache_policy \<Rightarrow> cache_policy" where
  "policy_add p q = Compound [p, q]"

fun policy_sub :: "cache_policy \<Rightarrow> string \<Rightarrow> cache_policy" where
  "policy_sub (Inputs exclude) k = Inputs (exclude @ [k])"
| "policy_sub TaskSource k = TaskSource"
| "policy_sub (Compound ps) k = Compound (map (\<lambda>p. policy_sub p k) ps)"

fun compute_key ::
  "((string \<times> 'v) list \<Rightarrow> 'h) \<Rightarrow> 'h \<Rightarrow> ('h list \<Rightarrow> 'h) \<Rightarrow> cache_policy \<Rightarrow>
     (string \<times> 'v) list \<Rightarrow> 'h" where
  "compute_key hash_inputs source_key hash_keys (Inputs exclude) inputs =
     hash_inputs (filter (\<lambda>(k, v). k \<notin> set exclude) inputs)"
| "compute_key hash_inputs source_key hash_keys TaskSource inputs = source_key"
| "compute_key hash_inputs source_key hash_keys (Compound ps) inputs =
     hash_keys (map (\<lambda>p. compute_key hash_inputs source_key hash_keys p inputs) ps)"

definition my_custom_policy :: cache_policy where
  "my_custom_policy = policy_sub (policy_add INPUTS TASK_SOURCE) ''browser''"

datatype argument = Url string | Browser "nat option"

definition fingerprint ::
  "((string \<times> argument) list \<Rightarrow> 'h) \<Rightarrow> 'h \<Rightarrow> ('h list \<Rightarrow> 'h) \<Rightarrow> string \<Rightarrow> nat option \<Rightarrow> 'h" where
  \<comment> \<open>the cache key of \<open>extract_product_info(on_url, browser)\<close>\<close>
  "fingerprint hash_inputs source_key hash_keys on_url browser =
     compute_key hash_inputs source_key hash_keys my_custom_policy
       [(''on_url'', Url on_url), (''browser'', Browser browser)]"

section \<open>Definitions for the statements\<close>

fun lang :: "regex \<Rightarrow> string \<Rightarrow> bool" where
  "lang [] w = (w = [])"
| "lang (Rep p lo hi # r) w =
     (\<exists>n\<le>length w. lo \<le> n \<and> (case hi of None \<Rightarrow> True | Some h \<Rightarrow> n \<le> h) \<and>
        list_all p (take n w) \<and> lang r (drop n w))"

definition quantity_suffix :: "string \<Rightarrow> bool" where
  "quantity_suffix s =
     (\<exists>pre ds us nl. s = pre @ '' '' @ ds @ us @ ''.'' @ nl \<and>
        ds \<noteq> [] \<and> list_all is_decimal ds \<and>
        us \<noteq> [] \<and> length us \<le> 2 \<and> list_all is_ascii_letter us \<and>
        (nl = [] \<or> nl = [newline]))"

definition digit_value :: "char \<Rightarrow> int" where
  "digit_value c = int (of_char c) - 48"

definition ean13_check_digit :: "int list \<Rightarrow> int" where
  "ean13_check_digit ds =
     (10 - sum_list (map (\<lambda>i. ds ! i * (if even i then 1 else 3)) [0..<12])) mod 10"

definition is_blank :: "char \<Rightarrow> bool" where
  "is_blank c = (c = CHR '' '' \<or> c = tab)"

fun no_adjacent :: "(char \<Rightarrow> bool) \<Rightarrow> string \<Rightarrow> bool" where
  "no_adjacent p [] = True"
| "no_adjacent p [c] = True"
| "no_adjacent p (a # b # s) = (\<not> (p a \<and> p b) \<and> no_adjacent p (b # s))"

definition whitespace_collapsed :: "string \<Rightarrow> bool" where
  "whitespace_collapsed s = no_adjacent is_space s"

definition trimmed :: "string \<Rightarrow> bool" where
  "trimmed s = (s = [] \<or> (\<not> is_space (hd s) \<and> \<not> is_space (last s)))"

definition unparseable :: "(string \<Rightarrow> 'f option) \<Rightarrow> site \<Rightarrow> bool" where
  "unparseable float_of web = (\<exists>price. price_content web = Inr price \<and> float_of price = None)"

section \<open>Concrete inputs\<close>

text \<open>
  The inputs of the concrete examples: a reader of decimal numerals that stands for
  \<open>float\<close> (it rejects \<open>"N/A"\<close>, as \<open>float\<close> does), and a product page.
\<close>

definition sample_float :: "string \<Rightarrow> (nat \<times> nat) option" where
  "sample_float s =
     (let whole = takeWhile is_decimal s; rest = dropWhile is_decimal s;
          digits = (\<lambda>ds. foldl (\<lambda>n c. 10 * n + (of_char c - 48)) 0 ds)
      in if whole \<noteq> [] \<and> rest = [] then Some (digits whole, 0)
         else if whole \<noteq> [] \<and> hd rest = CHR ''.'' \<and> tl rest \<noteq> [] \<and> list_all is_decimal (tl rest)
           then Some (digits (whole @ tl rest), length (tl rest))
           else None)"

definition sample_site :: site where
  "sample_site =
     \<lparr>launch_result = Inr 7, new_page_result = None, goto_result = None,
      name_content = Inr ''Fresh Milk 1L.'',
      image_srcs = Inr [Some ''/img/milk.jpg'', None],
      sku_content = Inr ''SKU 4006381333931'',
      details_content = Inr ('' Rich  taste'' @ [tab, newline]),
      price_content = Inr ''12.50'',
      label_alts = Inr [Some '' Organic '', Some '' '']\<rparr>"

text \<open>
  Two growth sources, none of whose calls raises. The page state of the first is the
  number of scrolls so far, and its size grows by 15 a round up to 42. The page state of
  the second is the time waited so far in milliseconds (each wait adds its length), and its
  size is that time: it never stops growing.
\<close>

definition plateau_source :: "nat page_ops" where
  "plateau_source =
     \<lparr>open_page = (\<lambda>url. Inr 0), mouse_wheel = (\<lambda>p. Inr (Suc p)),
      wait_for_timeout = (\<lambda>ms p. Inr p),
      locator_count = (\<lambda>p. Inr (min 42 (12 + 5 * p))),
      product_hrefs =
        (\<lambda>p. Inr (map (\<lambda>i. if i = 0 then None else Some (''/p/'' @ replicate i (CHR ''x'')))
                       [0..<min 42 (12 + 5 * p)]))\<rparr>"

definition growing_source :: "nat page_ops" where
  "growing_source =
     \<lparr>open_page = (\<lambda>url. Inr 0), mouse_wheel = (\<lambda>p. Inr p),
      wait_for_timeout = (\<lambda>ms p. Inr (p + ms)),
      locator_count = (\<lambda>p. Inr p),
      product_hrefs = (\<lambda>p. Inr [Some ''/p/1'', None])\<rparr>"

section \<open>Simplification setup\<close>

text \<open>The recursion equations of the loops are unfolded by hand.\<close>

declare re_split.simps [simp del] re_sub.simps [simp del] scroll_loop.simps [simp del]

section \<open>The matcher and the language of a pattern\<close>

lemma first_some_None_iff: "first_some xs = None \<longleftrightarrow> (\<forall>x\<in>set xs. x = None)"
  by (induction xs) (auto split: option.splits)

lemma first_some_Some_in: "first_some xs = Some v \<Longrightarrow> Some v \<in> set xs"
  by (induction xs) (auto split: option.splits)

lemma list_all_take_iff:
  "n \<le> length s \<Longrightarrow> list_all p (take n s) \<longleftrightarrow> n \<le> length (takeWhile p s)"
proof (induction s arbitrary: n)
  case Nil
  then show ?case by simp
next
  case (Cons c s)
  then show ?case by (cases n) auto
qed

lemma match_here_suffix:
  "match_here r final s = Some rest \<Longrightarrow>
     \<exists>n\<le>length s. rest = drop n s \<and> lang r (take n s) \<and> final rest"
proof (induction r arbitrary: s)
  case Nil
  then show ?case by (auto split: if_splits intro: exI [of _ 0])
next
  case (Cons it r)
  obtain p lo hi where it: "it = Rep p lo hi" by (cases it)
  define top where "top = (case hi of None \<Rightarrow> length (takeWhile p s) | Some h \<Rightarrow> min h (length (takeWhile p s)))"
  from Cons.prems it have "first_some (map (\<lambda>n. match_here r final (drop n s)) (rev [lo..<Suc top])) = Some rest"
    by (simp add: top_def Let_def)
  then have "Some rest \<in> set (map (\<lambda>n. match_here r final (drop n s)) (rev [lo..<Suc top]))"
    by (rule first_some_Some_in)
  then obtain n where n: "lo \<le> n" "n \<le> top" and m: "match_here r final (drop n s) = Some rest"
    by auto
  from m obtain k where k: "k \<le> length (drop n s)" "rest = drop k (drop n s)"
    "lang r (take k (drop n s))" "final rest"
    using Cons.IH by blast
  have run: "n \<le> length (takeWhile p s)" and hi: "(case hi of None \<Rightarrow> True | Some h \<Rightarrow> n \<le> h)"
    using n(2) by (auto simp: top_def split: option.splits)
  have nlen: "n \<le> length s"
    using run length_takeWhile_le [of p s] by linarith
  have allp: "list_all p (take n s)"
    using run nlen by (simp add: list_all_take_iff)
  have "lang (Rep p lo hi # r) (take (n + k) s)"
    using n(1) hi allp k(1,3) nlen
    by (auto simp: min_def take_add intro!: exI [of _ n])
  moreover have "rest = drop (n + k) s" using k(2) by (simp add: add.commute)
  moreover have "n + k \<le> length s" using k(1) nlen by simp
  ultimately show ?case using k(4) it by blast
qed

lemma match_here_complete:
  "n \<le> length s \<Longrightarrow> lang r (take n s) \<Longrightarrow> final (drop n s) \<Longrightarrow>
     \<exists>rest. match_here r final s = Some rest"
proof (induction r arbitrary: s n)
  case Nil
  then show ?case by (cases "n = 0") auto
next
  case (Cons it r)
  obtain p lo hi where it: "it = Rep p lo hi" by (cases it)
  define top where "top = (case hi of None \<Rightarrow> length (takeWhile p s) | Some h \<Rightarrow> min h (length (takeWhile p s)))"
  from Cons.prems(2) it obtain m where m: "m \<le> length (take n s)" "lo \<le> m"
    "(case hi of None \<Rightarrow> True | Some h \<Rightarrow> m \<le> h)" "list_all p (take m (take n s))"
    "lang r (drop m (take n s))"
    by auto
  have mn: "m \<le> n" using m(1) Cons.prems(1) by simp
  have "list_all p (take m s)" using m(4) mn by (simp add: min_def)
  then have run: "m \<le> length (takeWhile p s)"
    using mn Cons.prems(1) by (simp add: list_all_take_iff)
  have mtop: "m \<le> top" using run m(3) by (auto simp: top_def split: option.splits)
  have "lang r (take (n - m) (drop m s))"
    using m(5) by (simp add: drop_take)
  moreover have "n - m \<le> length (drop m s)" using Cons.prems(1) by simp
  moreover have "final (drop (n - m) (drop m s))" using Cons.prems(3) mn by simp
  ultimately obtain rest where "match_here r final (drop m s) = Some rest"
    using Cons.IH by blast
  then have "\<exists>x\<in>set (map (\<lambda>n. match_here r final (drop n s)) (rev [lo..<Suc top])). x \<noteq> None"
    using m(2) mtop by (auto intro!: bexI [of _ m])
  then have "first_some (map (\<lambda>n. match_here r final (drop n s)) (rev [lo..<Suc top])) \<noteq> None"
    by (simp only: first_some_None_iff) blast
  then show ?case using it by (auto simp: top_def Let_def)
qed

lemma match_here_iff:
  "match_here r final s \<noteq> None \<longleftrightarrow> (\<exists>n\<le>length s. lang r (take n s) \<and> final (drop n s))"
proof
  assume "match_here r final s \<noteq> None"
  then obtain rest where "match_here r final s = Some rest" by auto
  from match_here_suffix [OF this] show "\<exists>n\<le>length s. lang r (take n s) \<and> final (drop n s)"
    by auto
next
  assume "\<exists>n\<le>length s. lang r (take n s) \<and> final (drop n s)"
  then show "match_here r final s \<noteq> None"
    using match_here_complete by fastforce
qed

lemma lang_Cons_iff:
  "lang (Rep p lo hi # r) w \<longleftrightarrow>
     (\<exists>u v. w = u @ v \<and> lo \<le> length u \<and> (case hi of None \<Rightarrow> True | Some h \<Rightarrow> length u \<le> h) \<and>
        list_all p u \<and> lang r v)"
proof
  assume "lang (Rep p lo hi # r) w"
  then obtain n where n: "n \<le> length w" "lo \<le> n" "(case hi of None \<Rightarrow> True | Some h \<Rightarrow> n \<le> h)"
    "list_all p (take n w)" "lang r (drop n w)"
    by auto
  have "w = take n w @ drop n w" by simp
  moreover have "length (take n w) = n" using n(1) by simp
  ultimately show "\<exists>u v. w = u @ v \<and> lo \<le> length u \<and>
     (case hi of None \<Rightarrow> True | Some h \<Rightarrow> length u \<le> h) \<and> list_all p u \<and> lang r v"
    using n(2-5) by metis
next
  assume "\<exists>u v. w = u @ v \<and> lo \<le> length u \<and>
     (case hi of None \<Rightarrow> True | Some h \<Rightarrow> length u \<le> h) \<and> list_all p u \<and> lang r v"
  then obtain u v where "w = u @ v" "lo \<le> length u"
    "(case hi of None \<Rightarrow> True | Some h \<Rightarrow> length u \<le> h)" "list_all p u" "lang r v"
    by blast
  then show "lang (Rep p lo hi # r) w"
    by (auto intro!: exI [of _ "length u"])
qed

lemma re_search_iff:
  "re_search r final s \<longleftrightarrow> (\<exists>pre w rest. s = pre @ w @ rest \<and> lang r w \<and> final rest)"
proof
  assume "re_search r final s"
  then obtain i where i: "i \<le> length s" "match_here r final (drop i s) \<noteq> None"
    by (auto simp: re_search_def list_ex_iff less_Suc_eq_le simp del: upt_Suc)
  then obtain n where n: "n \<le> length (drop i s)" "lang r (take n (drop i s))"
    "final (drop n (drop i s))"
    using match_here_iff [THEN iffD1, OF i(2)] by blast
  have "s = take i s @ take n (drop i s) @ drop n (drop i s)"
    by (simp only: append_take_drop_id)
  with n(2,3) show "\<exists>pre w rest. s = pre @ w @ rest \<and> lang r w \<and> final rest" by blast
next
  assume "\<exists>pre w rest. s = pre @ w @ rest \<and> lang r w \<and> final rest"
  then obtain pre w rest where s: "s = pre @ w @ rest" and w: "lang r w" and f: "final rest"
    by blast
  have "match_here r final (drop (length pre) s) \<noteq> None"
    unfolding match_here_iff using s w f by (auto intro!: exI [of _ "length w"])
  moreover have "length pre \<le> length s" using s by simp
  ultimately show "re_search r final s"
    by (auto simp: re_search_def list_ex_iff intro!: bexI [of _ "length pre"])
qed

lemma list_all_eq_length_1: "list_all (\<lambda>c. c = a) u \<Longrightarrow> length u = 1 \<Longrightarrow> u = [a]"
  by (cases u) auto

lemma lang_quantity_re:
  "lang quantity_re w \<longleftrightarrow>
     (\<exists>ds us. w = '' '' @ ds @ us @ ''.'' \<and> ds \<noteq> [] \<and> list_all is_decimal ds \<and>
        us \<noteq> [] \<and> length us \<le> 2 \<and> list_all is_ascii_letter us)"
proof
  assume "lang quantity_re w"
  then obtain u1 u2 u3 u4 where w: "w = u1 @ u2 @ u3 @ u4"
    and u1: "length u1 = 1" "list_all (\<lambda>c. c = CHR '' '') u1"
    and u2: "1 \<le> length u2" "list_all is_decimal u2"
    and u3: "1 \<le> length u3" "length u3 \<le> 2" "list_all is_ascii_letter u3"
    and u4: "length u4 = 1" "list_all (\<lambda>c. c = CHR ''.'') u4"
    unfolding quantity_re_def lang_Cons_iff by (auto simp: le_antisym)
  have "u1 = '' ''" using u1 by (simp add: list_all_eq_length_1)
  moreover have "u4 = ''.''" using u4 by (simp add: list_all_eq_length_1)
  moreover have "u2 \<noteq> []" "u3 \<noteq> []" using u2(1) u3(1) by auto
  ultimately show "\<exists>ds us. w = '' '' @ ds @ us @ ''.'' \<and> ds \<noteq> [] \<and> list_all is_decimal ds \<and>
        us \<noteq> [] \<and> length us \<le> 2 \<and> list_all is_ascii_letter us"
    using w u2(2) u3(2,3) by blast
next
  assume "\<exists>ds us. w = '' '' @ ds @ us @ ''.'' \<and> ds \<noteq> [] \<and> list_all is_decimal ds \<and>
        us \<noteq> [] \<and> length us \<le> 2 \<and> list_all is_ascii_letter us"
  then obtain ds us where w: "w = '' '' @ (ds @ (us @ ''.''))" and "ds \<noteq> []" "list_all is_decimal ds"
     "us \<noteq> []" "length us \<le> 2" "list_all is_ascii_letter us"
    by auto
  have l4: "lang [Rep (\<lambda>c. c = CHR ''.'') 1 (Some 1)] ''.''"
    by (auto intro!: exI [of _ "Suc 0"])
  have l3: "lang [Rep is_ascii_letter 1 (Some 2), Rep (\<lambda>c. c = CHR ''.'') 1 (Some 1)] (us @ ''.'')"
    unfolding lang_Cons_iff [of is_ascii_letter]
    using l4 \<open>us \<noteq> []\<close> \<open>length us \<le> 2\<close> \<open>list_all is_ascii_letter us\<close>
    by (intro exI [of _ us] exI [of _ "''.''"]) (simp add: Suc_le_eq)
  have l2: "lang [Rep is_decimal 1 None, Rep is_ascii_letter 1 (Some 2),
      Rep (\<lambda>c. c = CHR ''.'') 1 (Some 1)] (ds @ (us @ ''.''))"
    unfolding lang_Cons_iff [of is_decimal]
    using l3 \<open>ds \<noteq> []\<close> \<open>list_all is_decimal ds\<close>
    by (intro exI [of _ ds] exI [of _ "us @ ''.''"]) (simp add: Suc_le_eq)
  show "lang quantity_re w"
    unfolding quantity_re_def w lang_Cons_iff [of "\<lambda>c. c = CHR '' ''"]
    using l2 by (intro exI [of _ "'' ''"] exI [of _ "ds @ (us @ ''.'')"]) simp
qed

lemma re_search_quantity: "re_search quantity_re at_end s \<longleftrightarrow> quantity_suffix s"
proof
  assume "re_search quantity_re at_end s"
  then obtain pre w rest where "s = pre @ w @ rest" "lang quantity_re w" "at_end rest"
    unfolding re_search_iff by blast
  then show "quantity_suffix s"
    unfolding quantity_suffix_def lang_quantity_re at_end_def by fastforce
next
  assume "quantity_suffix s"
  then obtain pre ds us nl where s: "s = pre @ ('' '' @ ds @ us @ ''.'') @ nl"
    and *: "ds \<noteq> []" "list_all is_decimal ds" "us \<noteq> []" "length us \<le> 2"
      "list_all is_ascii_letter us" and nl: "nl = [] \<or> nl = [newline]"
    unfolding quantity_suffix_def by auto
  have "lang quantity_re ('' '' @ ds @ us @ ''.'')"
    unfolding lang_quantity_re using * by blast
  moreover have "at_end nl" using nl by (simp add: at_end_def)
  ultimately show "re_search quantity_re at_end s"
    unfolding re_search_iff using s by blast
qed

section \<open>Patterns of one character class\<close>

lemma first_some_map_Some: "ns \<noteq> [] \<Longrightarrow> first_some (map (\<lambda>n. Some (g n)) ns) = Some (g (hd ns))"
  by (cases ns) auto

lemma run_pos_iff: "0 < length (takeWhile p s) \<longleftrightarrow> s \<noteq> [] \<and> p (hd s)"
  by (cases s) auto

lemma match_here_plus:
  "match_here [Rep p (Suc 0) None] anywhere s =
     (if s \<noteq> [] \<and> p (hd s) then Some (dropWhile p s) else None)"
proof (cases "s \<noteq> [] \<and> p (hd s)")
  case True
  then have "0 < length (takeWhile p s)" using run_pos_iff [of p s] by blast
  then obtain k where k: "length (takeWhile p s) = Suc k" by (auto simp: gr0_conv_Suc)
  have "dropWhile p s = drop (Suc k) s" using k by (simp add: dropWhile_eq_drop)
  then show ?thesis
    using True k by (simp add: anywhere_def)
next
  case False
  then have "length (takeWhile p s) = 0" using run_pos_iff [of p s] by blast
  then show ?thesis using False by (simp add: anywhere_def)
qed

lemma match_here_one:
  "match_here [Rep p (Suc 0) (Some (Suc 0))] anywhere s =
     (if s \<noteq> [] \<and> p (hd s) then Some (tl s) else None)"
proof (cases "s \<noteq> [] \<and> p (hd s)")
  case True
  then have "0 < length (takeWhile p s)" using run_pos_iff [of p s] by blast
  then obtain k where k: "length (takeWhile p s) = Suc k" by (auto simp: gr0_conv_Suc)
  show ?thesis
    using True k by (simp add: anywhere_def drop_Suc)
next
  case False
  then have "length (takeWhile p s) = 0" using run_pos_iff [of p s] by blast
  then show ?thesis using False by (simp add: anywhere_def)
qed

lemma length_dropWhile_less: "s \<noteq> [] \<Longrightarrow> p (hd s) \<Longrightarrow> length (dropWhile p s) < length s"
  by (cases s) (auto simp: less_Suc_eq_le length_dropWhile_le)

lemma re_split_plus:
  "re_split [Rep p (Suc 0) None] s =
     (if s = [] then [[]]
      else if p (hd s) then [] # re_split [Rep p (Suc 0) None] (dropWhile p s)
      else (hd s # hd (re_split [Rep p (Suc 0) None] (tl s))) # tl (re_split [Rep p (Suc 0) None] (tl s)))"
  by (subst re_split.simps) (simp add: match_here_plus length_dropWhile_less Let_def del: match_here.simps)

lemma re_sub_plus:
  "re_sub [Rep p (Suc 0) None] repl s =
     (if s = [] then []
      else if p (hd s) then repl @ re_sub [Rep p (Suc 0) None] repl (dropWhile p s)
      else hd s # re_sub [Rep p (Suc 0) None] repl (tl s))"
  by (subst re_sub.simps) (simp add: match_here_plus length_dropWhile_less del: match_here.simps)

lemma re_sub_one:
  "re_sub [Rep p (Suc 0) (Some (Suc 0))] repl s =
     (if s = [] then []
      else if p (hd s) then repl @ re_sub [Rep p (Suc 0) (Some (Suc 0))] repl (tl s)
      else hd s # re_sub [Rep p (Suc 0) (Some (Suc 0))] repl (tl s))"
  by (subst re_sub.simps) (cases s; simp add: match_here_one del: match_here.simps)

lemma re_sub_delete: "re_sub [Rep p (Suc 0) (Some (Suc 0))] [] s = filter (\<lambda>c. \<not> p c) s"
  by (induction s) (simp_all add: re_sub_one [of p _ "_ # _"] re_sub_one [of p _ "[]"])

lemma re_sub_non_alnum: "re_sub non_alnum_re [] s = filter is_ascii_alnum s"
  by (simp add: non_alnum_re_def re_sub_delete)

lemma re_split_not_Nil: "re_split r s \<noteq> []"
  by (subst re_split.simps) (simp add: Let_def split: option.splits)

lemma re_split_token:
  "\<forall>c\<in>set tok. \<not> p c \<Longrightarrow> re_split [Rep p (Suc 0) None] tok = [tok]"
proof (induction tok)
  case Nil
  show ?case by (subst re_split_plus) simp
next
  case (Cons a tok)
  then show ?case by (subst re_split_plus) simp
qed

lemma dropWhile_append_token:
  "\<forall>c\<in>set tok. \<not> p c \<Longrightarrow> dropWhile p (u @ tok) = dropWhile p u @ tok"
  by (induction u) (auto simp: dropWhile_eq_self_iff hd_in_set)

lemma re_split_no_sep:
  "t \<in> set (re_split [Rep p (Suc 0) None] s) \<Longrightarrow> c \<in> set t \<Longrightarrow> \<not> p c"
proof (induction s arbitrary: t rule: length_induct)
  case (1 s)
  let ?R = "[Rep p (Suc 0) None]"
  show ?case
  proof (cases "s = []")
    case True
    with "1.prems" show ?thesis by (simp add: re_split_plus [of p "[]"])
  next
    case False
    show ?thesis
    proof (cases "p (hd s)")
      case True
      have "length (dropWhile p s) < length s"
        using False True by (rule length_dropWhile_less)
      moreover have "t = [] \<or> t \<in> set (re_split ?R (dropWhile p s))"
        using "1.prems"(1) False True by (subst (asm) re_split_plus) simp
      ultimately show ?thesis using "1.IH" "1.prems"(2) by auto
    next
      case notp: False
      let ?ts = "re_split ?R (tl s)"
      have len: "length (tl s) < length s" using False by simp
      have ts: "?ts = hd ?ts # tl ?ts" using re_split_not_Nil [of ?R "tl s"] by simp
      have "t = hd s # hd ?ts \<or> t \<in> set (tl ?ts)"
        using "1.prems"(1) False notp by (subst (asm) re_split_plus) simp
      then show ?thesis
      proof
        assume t: "t = hd s # hd ?ts"
        have "hd ?ts \<in> set ?ts" using ts by (metis list.set_intros(1))
        then have "c \<in> set (hd ?ts) \<Longrightarrow> \<not> p c" using "1.IH" len by blast
        with t "1.prems"(2) notp show ?thesis by auto
      next
        assume "t \<in> set (tl ?ts)"
        then have "t \<in> set ?ts" using ts by (metis list.set_intros(2))
        then show ?thesis using "1.IH" len "1.prems"(2) by blast
      qed
    qed
  qed
qed

lemma re_split_append_token:
  "\<forall>c\<in>set tok. \<not> p c \<Longrightarrow>
     re_split [Rep p (Suc 0) None] (u @ tok) =
       butlast (re_split [Rep p (Suc 0) None] u) @ [last (re_split [Rep p (Suc 0) None] u) @ tok]"
proof (induction u rule: length_induct)
  case (1 u)
  let ?R = "[Rep p (Suc 0) None]"
  show ?case
  proof (cases "u = []")
    case True
    then show ?thesis using "1.prems" by (simp add: re_split_token re_split_plus [of p "[]"])
  next
    case False
    show ?thesis
    proof (cases "p (hd u)")
      case True
      have len: "length (dropWhile p u) < length u"
        using False True by (rule length_dropWhile_less)
      have IH: "re_split ?R (dropWhile p u @ tok) =
          butlast (re_split ?R (dropWhile p u)) @ [last (re_split ?R (dropWhile p u)) @ tok]"
        using "1.IH" len "1.prems" by blast
      have "re_split ?R (u @ tok) = [] # re_split ?R (dropWhile p u @ tok)"
        using False True "1.prems"
        by (subst re_split_plus) (simp add: dropWhile_append_token)
      moreover have "re_split ?R u = [] # re_split ?R (dropWhile p u)"
        using False True by (subst re_split_plus) simp
      ultimately show ?thesis using IH by (simp add: re_split_not_Nil)
    next
      case notp: False
      let ?ts = "re_split ?R (tl u)"
      have len: "length (tl u) < length u" using False by simp
      have IH: "re_split ?R (tl u @ tok) = butlast ?ts @ [last ?ts @ tok]"
        using "1.IH" len "1.prems" by blast
      have ts: "?ts \<noteq> []" by (rule re_split_not_Nil)
      have tl: "tl (u @ tok) = tl u @ tok" and hd: "hd (u @ tok) = hd u"
        using False by simp_all
      have a: "re_split ?R (u @ tok) =
          (hd u # hd (butlast ?ts @ [last ?ts @ tok])) # tl (butlast ?ts @ [last ?ts @ tok])"
        using False notp by (subst re_split_plus) (simp add: tl hd IH)
      have b: "re_split ?R u = (hd u # hd ?ts) # tl ?ts"
        using False notp by (subst re_split_plus) simp
      show ?thesis
      proof (cases "tl ?ts = []")
        case True
        then have "?ts = [hd ?ts]" using ts by (cases ?ts) auto
        then have "butlast ?ts = []" "last ?ts = hd ?ts" by (metis butlast.simps(2), metis last.simps)
        then show ?thesis using a b True by simp
      next
        case False
        then obtain x y ys where xs: "?ts = x # y # ys" using ts
          by (cases ?ts; cases "tl ?ts") auto
        show ?thesis unfolding a b xs by simp
      qed
    qed
  qed
qed

lemma re_split_not_single_empty: "u \<noteq> [] \<Longrightarrow> re_split [Rep p (Suc 0) None] u \<noteq> [[]]"
  by (subst re_split_plus) (simp add: re_split_not_Nil)

lemma re_split_last_empty:
  "u \<noteq> [] \<Longrightarrow> p (last u) \<Longrightarrow> last (re_split [Rep p (Suc 0) None] u) = []"
proof (induction u rule: length_induct)
  case (1 u)
  let ?R = "[Rep p (Suc 0) None]"
  show ?case
  proof (cases "p (hd u)")
    case True
    have len: "length (dropWhile p u) < length u"
      using "1.prems"(1) True by (rule length_dropWhile_less)
    have eq: "re_split ?R u = [] # re_split ?R (dropWhile p u)"
      using "1.prems"(1) True by (subst re_split_plus) simp
    show ?thesis
    proof (cases "dropWhile p u = []")
      case True
      have "re_split ?R [] = [[]]" by (subst re_split_plus) simp
      then show ?thesis unfolding eq True by simp
    next
      case False
      have "last (dropWhile p u) = last u"
        using False by (metis last_appendR takeWhile_dropWhile_id)
      then have "last (re_split ?R (dropWhile p u)) = []"
        using "1.IH" len False "1.prems"(2) by simp
      then show ?thesis using eq by (simp add: re_split_not_Nil)
    qed
  next
    case False
    let ?ts = "re_split ?R (tl u)"
    have tl_ne: "tl u \<noteq> []"
      using False "1.prems" by (cases u; cases "tl u") auto
    have len: "length (tl u) < length u" using "1.prems"(1) by simp
    have "last (tl u) = last u" using tl_ne "1.prems"(1) by (cases u) auto
    then have l: "last ?ts = []" using "1.IH" len tl_ne "1.prems"(2) by simp
    have ne: "?ts \<noteq> [[]]" using tl_ne by (rule re_split_not_single_empty)
    have ts: "?ts \<noteq> []" by (rule re_split_not_Nil)
    have "tl ?ts \<noteq> []"
    proof
      assume "tl ?ts = []"
      then have "?ts = [last ?ts]" using ts by (cases ?ts) auto
      with l ne show False by simp
    qed
    moreover have "last (tl ?ts) = last ?ts" using calculation ts by (cases ?ts) auto
    moreover have "re_split ?R u = (hd u # hd ?ts) # tl ?ts"
      using "1.prems"(1) False by (subst re_split_plus) simp
    ultimately show ?thesis using l by simp
  qed
qed

section \<open>The pattern of the leading parenthesis\<close>

lemma first_some_rev_upt:
  "lo \<le> n \<Longrightarrow> n \<le> hi \<Longrightarrow> (\<And>m. n < m \<Longrightarrow> m \<le> hi \<Longrightarrow> f m = None) \<Longrightarrow> f n = Some v \<Longrightarrow>
     first_some (map f (rev [lo..<Suc hi])) = Some v"
proof (induction hi)
  case 0
  then show ?case by simp
next
  case (Suc hi)
  show ?case
  proof (cases "n = Suc hi")
    case True
    with Suc.prems show ?thesis by simp
  next
    case False
    with Suc.prems have "n \<le> hi" "f (Suc hi) = None" by simp_all
    moreover have "first_some (map f (rev [lo..<Suc hi])) = Some v"
      using Suc.IH [OF Suc.prems(1) \<open>n \<le> hi\<close> _ Suc.prems(4)] Suc.prems(3) by simp
    ultimately show ?thesis using Suc.prems(1) by simp
  qed
qed

lemma match_here_char:
  "match_here (Rep (\<lambda>x. x = c) (Suc 0) (Some (Suc 0)) # r) final s =
     (if s \<noteq> [] \<and> hd s = c then match_here r final (tl s) else None)"
proof (cases "s \<noteq> [] \<and> hd s = c")
  case True
  then have "0 < length (takeWhile (\<lambda>x. x = c) s)" by (cases s) auto
  then obtain k where k: "length (takeWhile (\<lambda>x. x = c) s) = Suc k" by (auto simp: gr0_conv_Suc)
  show ?thesis
    using True k
    by (subst match_here.simps(2)) (simp add: drop_Suc del: match_here.simps split: option.splits)
next
  case False
  then have "length (takeWhile (\<lambda>x. x = c) s) = 0" by (cases s) auto
  then show ?thesis
    using False by (subst match_here.simps(2)) (auto simp del: match_here.simps)
qed

lemma match_here_star:
  "match_here [Rep p 0 None] anywhere s = Some (dropWhile p s)"
  by (simp add: anywhere_def dropWhile_eq_drop)

lemma re_sub_start_no_paren:
  "s = [] \<or> hd s \<noteq> CHR ''('' \<Longrightarrow> re_sub_start paren_re [] s = s"
  unfolding re_sub_start_def paren_re_def One_nat_def
  by (subst match_here_char) (auto simp del: match_here.simps)

lemma close_tail_None:
  "CHR '')'' \<notin> set t \<Longrightarrow>
   match_here [Rep (\<lambda>c. c = CHR '')'') (Suc 0) (Some (Suc 0)), Rep is_space 0 None] anywhere t = None"
  by (subst match_here_char) (cases t; auto simp del: match_here.simps)

lemma close_tail_Some:
  assumes "list_all is_space sp" "rest = [] \<or> \<not> is_space (hd rest)"
  shows "match_here [Rep (\<lambda>c. c = CHR '')'') (Suc 0) (Some (Suc 0)), Rep is_space 0 None] anywhere
           ('')'' @ sp @ rest) = Some rest"
proof -
  have "dropWhile is_space (sp @ rest) = dropWhile is_space rest"
    using assms(1) by (intro dropWhile_append2) (simp add: list_all_iff)
  also have "\<dots> = rest" using assms(2) by (cases rest) auto
  finally show ?thesis by (simp add: match_here_char match_here_star del: match_here.simps)
qed

lemma close_not_space: "\<not> is_space (CHR '')'')"
  by (simp add: is_space_def)

lemma drop_past_close:
  assumes "list_all is_space sp" "CHR '')'' \<notin> set rest" "length q < m"
  shows "CHR '')'' \<notin> set (drop m (q @ '')'' @ sp @ rest))"
proof -
  define k where "k = m - Suc (length q)"
  have k: "m = length q + Suc k" using assms(3) by (simp add: k_def)
  have d: "drop m (q @ '')'' @ sp @ rest) = drop k (sp @ rest)"
    unfolding k by simp
  have "CHR '')'' \<notin> set sp" using assms(1) close_not_space by (auto simp: list_all_iff)
  then have "CHR '')'' \<notin> set (sp @ rest)" using assms(2) by simp
  moreover have "set (drop k (sp @ rest)) \<subseteq> set (sp @ rest)" by (rule set_drop_subset)
  ultimately have "CHR '')'' \<notin> set (drop k (sp @ rest))" by blast
  then show ?thesis unfolding d .
qed

lemma re_sub_start_paren:
  assumes q: "q \<noteq> []" "newline \<notin> set q"
    and sp: "list_all is_space sp"
    and rest: "CHR '')'' \<notin> set rest" "rest = [] \<or> \<not> is_space (hd rest)"
  shows "re_sub_start paren_re [] (''('' @ q @ '')'' @ sp @ rest) = rest"
proof -
  let ?tail = "[Rep (\<lambda>c. c = CHR '')'') (Suc 0) (Some (Suc 0)), Rep is_space 0 None]"
  let ?s = "q @ '')'' @ sp @ rest"
  let ?f = "\<lambda>n. match_here ?tail anywhere (drop n ?s)"
  let ?run = "length (takeWhile (\<lambda>c. c \<noteq> newline) ?s)"
  have nl: "CHR '')'' \<noteq> newline" by (simp add: newline_def)
  have "takeWhile (\<lambda>c. c \<noteq> newline) ?s = q @ takeWhile (\<lambda>c. c \<noteq> newline) ('')'' @ sp @ rest)"
    using q(2) by (intro takeWhile_append2) auto
  then have run: "length q < ?run" using nl by simp
  have at: "?f (length q) = Some rest"
    using close_tail_Some [OF sp rest(2)] by (simp del: match_here.simps)
  have fs: "first_some (map ?f (rev [Suc 0..<Suc ?run])) = Some rest"
  proof (rule first_some_rev_upt [where n = "length q"])
    show "Suc 0 \<le> length q" using q(1) by (simp add: Suc_le_eq)
    show "length q \<le> ?run" using run by simp
    show "?f m = None" if "length q < m" for m
      by (rule close_tail_None) (rule drop_past_close [OF sp rest(1) that])
    show "?f (length q) = Some rest" by (rule at)
  qed
  have "match_here (Rep (\<lambda>c. c \<noteq> newline) (Suc 0) None # ?tail) anywhere ?s =
      first_some (map ?f (rev [Suc 0..<Suc ?run]))"
    by (subst match_here.simps(2)) (simp only: Let_def option.case)
  then have "match_here (Rep (\<lambda>c. c \<noteq> newline) (Suc 0) None # ?tail) anywhere ?s = Some rest"
    by (simp only: fs)
  then have "match_here paren_re anywhere (''('' @ ?s) = Some rest"
    unfolding paren_re_def One_nat_def by (subst match_here_char) (simp del: match_here.simps)
  then show ?thesis by (simp add: re_sub_start_def)
qed

lemma re_sub_start_unclosed:
  assumes "CHR '')'' \<notin> set (tl s)"
  shows "re_sub_start paren_re [] (CHR ''('' # s) = CHR ''('' # s"
proof -
  let ?tail = "[Rep (\<lambda>c. c = CHR '')'') (Suc 0) (Some (Suc 0)), Rep is_space 0 None]"
  let ?f = "\<lambda>n. match_here ?tail anywhere (drop n s)"
  let ?run = "length (takeWhile (\<lambda>c. c \<noteq> newline) s)"
  have none: "?f n = None" if "n \<in> set (rev [Suc 0..<Suc ?run])" for n
  proof -
    from that have "Suc 0 \<le> n" by (simp del: upt_Suc)
    then obtain k where k: "n = Suc k" by (cases n) auto
    have "set (drop k (tl s)) \<subseteq> set (tl s)" by (rule set_drop_subset)
    then have "CHR '')'' \<notin> set (drop k (tl s))" using assms by blast
    then have "CHR '')'' \<notin> set (drop n s)" by (simp add: k drop_Suc)
    then show ?thesis by (rule close_tail_None)
  qed
  have "first_some (map ?f (rev [Suc 0..<Suc ?run])) = None"
    unfolding first_some_None_iff using none by auto
  moreover have "match_here (Rep (\<lambda>c. c \<noteq> newline) (Suc 0) None # ?tail) anywhere s =
      first_some (map ?f (rev [Suc 0..<Suc ?run]))"
    by (subst match_here.simps(2)) (simp only: Let_def option.case)
  ultimately have "match_here (Rep (\<lambda>c. c \<noteq> newline) (Suc 0) None # ?tail) anywhere s = None"
    by (simp only:)
  then have "match_here paren_re anywhere (CHR ''('' # s) = None"
    unfolding paren_re_def One_nat_def by (subst match_here_char) (simp del: match_here.simps)
  then show ?thesis by (simp add: re_sub_start_def)
qed

section \<open>Properties of the barcode validator\<close>

lemma collect_decimals:
  "list_all is_decimal s \<Longrightarrow> collect (map int_of_char s) = Inr (map digit_value s)"
  by (induction s) (auto simp: int_of_char_def digit_value_def)

lemma collect_not_decimal:
  "\<not> list_all is_decimal s \<Longrightarrow> collect (map int_of_char s) = Inl ValueError"
  by (induction s) (auto simp: int_of_char_def split: sum.splits)

lemma checksum_mod: "(10 - x mod 10) mod 10 = (10 - x) mod (10 :: int)"
  by (rule mod_diff_right_eq)

lemma weights_eq:
  "(\<lambda>i. ds ! i * (if i mod 2 \<noteq> 0 then 3 else 1)) = (\<lambda>i. (ds :: int list) ! i * (if even i then 1 else 3))"
  by (auto simp: fun_eq_iff even_iff_mod_2_eq_zero)

lemma checksum_eq:
  "(10 - (sum_list (map (\<lambda>i. ds ! i * (if i mod 2 \<noteq> 0 then 3 else 1)) [0..<12]) mod 10)) mod 10
     = ean13_check_digit ds"
  by (simp only: ean13_check_digit_def checksum_mod weights_eq)

lemma is_valid_ean13_cases:
  "is_valid_ean13 s =
     (if \<not> str_isdigit s \<or> length s \<noteq> 13 then Inr False
      else if list_all is_decimal s
        then Inr (ean13_check_digit (map digit_value s) = digit_value (s ! 12))
        else Inl ValueError)"
proof (cases "\<not> str_isdigit s \<or> length s \<noteq> 13")
  case True
  then show ?thesis unfolding is_valid_ean13_def by (simp only: if_True)
next
  case False
  then have len: "length s = 13" by simp
  show ?thesis
  proof (cases "list_all is_decimal s")
    case True
    have "is_valid_ean13 s = Inr (ean13_check_digit (map digit_value s) = map digit_value s ! 12)"
      unfolding is_valid_ean13_def Let_def checksum_eq
      using False by (simp only: if_False collect_decimals [OF True] sum.case)
    moreover have "map digit_value s ! 12 = digit_value (s ! 12)"
      using len by simp
    ultimately show ?thesis using False True by (simp only: if_False if_True)
  next
    case notdec: False
    have "is_valid_ean13 s = Inl ValueError"
      unfolding is_valid_ean13_def
      using False by (simp only: if_False collect_not_decimal [OF notdec] sum.case)
    then show ?thesis using False notdec by (simp only: if_False)
  qed
qed

lemma is_decimal_is_digit: "is_decimal c \<Longrightarrow> is_digit c"
  by (simp add: is_digit_def)

lemma is_valid_ean13_decimal:
  "list_all is_decimal s \<Longrightarrow>
     is_valid_ean13 s =
       Inr (length s = 13 \<and> ean13_check_digit (map digit_value s) = digit_value (s ! 12))"
  by (cases "s = []")
     (auto simp: is_valid_ean13_cases str_isdigit_def list_all_iff is_decimal_is_digit)

lemma is_valid_ean13_wrong_length: "length s \<noteq> 13 \<Longrightarrow> is_valid_ean13 s = Inr False"
  by (simp add: is_valid_ean13_cases)

lemma is_valid_ean13_not_digits: "\<not> list_all is_digit s \<Longrightarrow> is_valid_ean13 s = Inr False"
  by (simp add: is_valid_ean13_cases str_isdigit_def)

lemma is_valid_ean13_examples:
  "is_valid_ean13 ''4006381333931'' = Inr True"
  "is_valid_ean13 ''4006381333932'' = Inr False"
  "is_valid_ean13 ''12345'' = Inr False"
  by code_simp+

lemma ascii_digit_is_decimal: "is_digit c \<Longrightarrow> (of_char c :: nat) < 128 \<Longrightarrow> is_decimal c"
  by (auto simp: is_digit_def)

lemma is_valid_ean13_ascii:
  assumes "\<forall>c\<in>set s. (of_char c :: nat) < 128"
  shows "is_valid_ean13 s =
     Inr (list_all is_decimal s \<and> length s = 13 \<and>
          ean13_check_digit (map digit_value s) = digit_value (s ! 12))"
proof -
  have "str_isdigit s \<longleftrightarrow> s \<noteq> [] \<and> list_all is_decimal s"
    using assms by (auto simp: str_isdigit_def list_all_iff ascii_digit_is_decimal is_decimal_is_digit)
  then show ?thesis
    by (auto simp: is_valid_ean13_cases)
qed

text \<open>
  Claim C3. For every string, \<open>is_valid_ean13\<close> is to answer whether the string is 13 numeric
  digits whose last digit is the check digit, and never to raise. The lemmas above show
  this for every string but the ones \<open>str.isdigit\<close> accepts and \<open>int\<close> does not read:
  the validator raises \<open>ValueError\<close> on 13 characters \<open>U+00B2\<close> (superscript two).
\<close>

theorem is_valid_ean13_raises:
  "is_valid_ean13 (replicate 13 (CHR 0xB2)) = Inl ValueError"
  by code_simp

lemma superscripts_isdigit: "str_isdigit (replicate 13 (CHR 0xB2))"
  by code_simp

theorem is_valid_ean13_raises_witness:
  "str_isdigit (replicate 13 (CHR 0xB2)) \<and> isl (is_valid_ean13 (replicate 13 (CHR 0xB2)))"
  using is_valid_ean13_raises superscripts_isdigit by simp

section \<open>Name and quantity\<close>

lemma ascii_digit_decimal: "is_ascii_digit c \<Longrightarrow> is_decimal c"
  by (simp add: is_ascii_digit_def is_decimal_def)

lemma decimal_not_space: "is_decimal c \<Longrightarrow> \<not> is_space c"
  by (auto simp: is_decimal_def is_space_def)

lemma letter_not_space: "is_ascii_letter c \<Longrightarrow> \<not> is_space c"
  by (auto simp: is_ascii_letter_def is_space_def)

lemma decimal_not_letter: "is_decimal c \<Longrightarrow> \<not> is_ascii_letter c"
  by (auto simp: is_decimal_def is_ascii_letter_def)

lemma dot_class: "\<not> is_space (CHR ''.'')" "\<not> is_ascii_alnum (CHR ''.'')"
  by (simp_all add: is_space_def is_ascii_alnum_def is_ascii_letter_def is_ascii_digit_def)

lemma space_is_space: "is_space (CHR '' '')"
  by (simp add: is_space_def)

lemma quantity_token_no_space:
  "list_all is_decimal ds \<Longrightarrow> list_all is_ascii_letter us \<Longrightarrow>
     \<forall>c\<in>set (ds @ us @ ''.''). \<not> is_space c"
  by (auto simp: list_all_iff decimal_not_space letter_not_space dot_class)

lemma quantity_token_alnum:
  "list_all is_ascii_digit ds \<Longrightarrow> list_all is_ascii_letter us \<Longrightarrow>
     filter is_ascii_alnum (ds @ us @ ''.'') = ds @ us"
  by (auto simp: list_all_iff is_ascii_alnum_def dot_class [unfolded is_ascii_alnum_def]
      intro!: filter_True)

lemma split_quantity_name:
  assumes "list_all is_decimal ds" "list_all is_ascii_letter us"
  shows "re_split whitespace_re (pre @ '' '' @ ds @ us @ ''.'') =
           butlast (re_split whitespace_re (pre @ '' '')) @ [ds @ us @ ''.'']"
proof -
  have "re_split whitespace_re ((pre @ '' '') @ (ds @ us @ ''.'')) =
      butlast (re_split whitespace_re (pre @ '' '')) @
        [last (re_split whitespace_re (pre @ '' '')) @ (ds @ us @ ''.'')]"
    unfolding whitespace_re_def One_nat_def
    by (rule re_split_append_token) (rule quantity_token_no_space [OF assms])
  moreover have "last (re_split whitespace_re (pre @ '' '')) = []"
    unfolding whitespace_re_def One_nat_def
    by (rule re_split_last_empty) (simp_all add: space_is_space)
  ultimately show ?thesis by simp
qed

lemma name_quantity_cases:
  "name_quantity name =
     (if quantity_suffix name
      then (re_sub_start paren_re [] (str_join '' '' (butlast (re_split whitespace_re name))),
            Some (filter is_ascii_alnum (last (re_split whitespace_re name))))
      else (name, None))"
  by (simp add: name_quantity_def re_search_quantity re_sub_non_alnum)

lemma name_quantity_suffix:
  assumes name: "name = pre @ '' '' @ ds @ us @ ''.''"
    and ds: "ds \<noteq> []" "list_all is_ascii_digit ds"
    and us: "us \<noteq> []" "length us \<le> 2" "list_all is_ascii_letter us"
  shows "last (re_split whitespace_re name) = ds @ us @ ''.''"
    and "name_quantity name =
     (re_sub_start paren_re [] (str_join '' '' (butlast (re_split whitespace_re name))),
      Some (ds @ us))"
proof -
  have dec: "list_all is_decimal ds" using ds(2) by (simp add: list_all_iff ascii_digit_decimal)
  have "quantity_suffix name"
    unfolding quantity_suffix_def using name ds(1) dec us
    by (intro exI [of _ pre] exI [of _ ds] exI [of _ us] exI [of _ "[]"]) simp
  moreover have "re_split whitespace_re name =
      butlast (re_split whitespace_re (pre @ '' '')) @ [ds @ us @ ''.'']"
    unfolding name by (rule split_quantity_name [OF dec us(3)])
  ultimately have s: "quantity_suffix name"
    and l: "last (re_split whitespace_re name) = ds @ us @ ''.''"
    by simp_all
  show "last (re_split whitespace_re name) = ds @ us @ ''.''" by (rule l)
  show "name_quantity name =
     (re_sub_start paren_re [] (str_join '' '' (butlast (re_split whitespace_re name))),
      Some (ds @ us))"
    using s l by (simp only: name_quantity_cases if_True quantity_token_alnum [OF ds(2) us(3)])
qed

lemma set_str_join: "set (str_join sep ts) \<subseteq> set sep \<union> \<Union> (set ` set ts)"
  by (induction sep ts rule: str_join.induct) auto

lemma joined_no_newline:
  "newline \<notin> set (str_join '' '' (butlast (re_split whitespace_re s)))"
proof
  assume "newline \<in> set (str_join '' '' (butlast (re_split whitespace_re s)))"
  then have "newline \<in> set '' '' \<union> \<Union> (set ` set (butlast (re_split whitespace_re s)))"
    using set_str_join by blast
  then obtain t where "t \<in> set (butlast (re_split whitespace_re s))" "newline \<in> set t"
    by (auto simp: newline_def)
  then have "t \<in> set (re_split [Rep is_space (Suc 0) None] s)" "newline \<in> set t"
    by (auto simp: whitespace_re_def dest: in_set_butlastD)
  then have "\<not> is_space newline" by (rule re_split_no_sep)
  then show False by (simp add: is_space_def newline_def)
qed

lemma name_quantity_fresh_milk: "name_quantity ''Fresh Milk 1L.'' = (''Fresh Milk'', Some ''1L'')"
  by code_simp

lemma name_quantity_organic_eggs: "name_quantity ''Organic Eggs'' = (''Organic Eggs'', None)"
  by code_simp

text \<open>
  Claim C2, as amended. The quantity suffix is a space, one or more digits directly
  followed by a unit of one or two ASCII letters, and a period, at the end of the name.

  \<^item> A name in which the pattern of the code finds nothing (\<open>quantity_suffix\<close> is what
    \<^verbatim>\<open>re.search\<close> decides) keeps its \<open>name\<close> and has the \<open>quantity\<close> \<open>None\<close>.
  \<^item> A name that ends with the suffix, its number written with the digits \<open>0\<close> to \<open>9\<close>,
    has as its trailing token the number, the unit and the period; \<open>quantity\<close> is that
    token without its non-alphanumeric characters: the number and the unit.
  \<^item> For such a name, \<open>name\<close> is made of the other tokens joined by single spaces. It is
    the joined text when that does not start with a parenthesised qualifier (it does not
    start with an opening parenthesis, or no closing one follows from its third character
    on). It is what follows the qualifier and the whitespace after it when the joined text
    starts with a qualifier in parentheses and holds no other closing parenthesis.
  \<^item> \<open>"Fresh Milk 1L."\<close> gives \<open>"Fresh Milk"\<close> and \<open>"1L"\<close>; \<open>"Organic Eggs"\<close> is unchanged.
\<close>

theorem name_quantity_spec:
  "(\<not> quantity_suffix name \<longrightarrow> name_quantity name = (name, None)) \<and>
   (name = pre @ '' '' @ ds @ us @ ''.'' \<and> ds \<noteq> [] \<and> list_all is_ascii_digit ds \<and>
      us \<noteq> [] \<and> length us \<le> 2 \<and> list_all is_ascii_letter us \<longrightarrow>
    last (re_split whitespace_re name) = ds @ us @ ''.'' \<and>
    snd (name_quantity name) = Some (ds @ us) \<and>
    (joined = str_join '' '' (butlast (re_split whitespace_re name)) \<longrightarrow>
       (joined = [] \<or> hd joined \<noteq> CHR ''('' \<or> CHR '')'' \<notin> set (drop 2 joined) \<longrightarrow>
        fst (name_quantity name) = joined) \<and>
       (joined = ''('' @ q @ '')'' @ sp @ rest \<and> q \<noteq> [] \<and> CHR '')'' \<notin> set q \<and>
          list_all is_space sp \<and> (rest = [] \<or> \<not> is_space (hd rest)) \<and>
          CHR '')'' \<notin> set rest \<longrightarrow>
        fst (name_quantity name) = rest))) \<and>
   name_quantity ''Fresh Milk 1L.'' = (''Fresh Milk'', Some ''1L'') \<and>
   name_quantity ''Organic Eggs'' = (''Organic Eggs'', None)"
proof -
  have a: "name_quantity name = (name, None)" if "\<not> quantity_suffix name"
    using that by (simp add: name_quantity_cases)
  have b: "last (re_split whitespace_re name) = ds @ us @ ''.'' \<and>
      snd (name_quantity name) = Some (ds @ us) \<and>
      (joined = str_join '' '' (butlast (re_split whitespace_re name)) \<longrightarrow>
       (joined = [] \<or> hd joined \<noteq> CHR ''('' \<or> CHR '')'' \<notin> set (drop 2 joined) \<longrightarrow>
        fst (name_quantity name) = joined) \<and>
       (joined = ''('' @ q @ '')'' @ sp @ rest \<and> q \<noteq> [] \<and> CHR '')'' \<notin> set q \<and>
          list_all is_space sp \<and> (rest = [] \<or> \<not> is_space (hd rest)) \<and>
          CHR '')'' \<notin> set rest \<longrightarrow>
        fst (name_quantity name) = rest))"
    if h: "name = pre @ '' '' @ ds @ us @ ''.''" "ds \<noteq> []" "list_all is_ascii_digit ds"
      "us \<noteq> []" "length us \<le> 2" "list_all is_ascii_letter us"
  proof -
    let ?j = "str_join '' '' (butlast (re_split whitespace_re name))"
    note nq = name_quantity_suffix [OF h]
    have f: "fst (name_quantity name) = re_sub_start paren_re [] ?j" by (simp add: nq(2))
    have c1: "fst (name_quantity name) = ?j"
      if "?j = [] \<or> hd ?j \<noteq> CHR ''('' \<or> CHR '')'' \<notin> set (drop 2 ?j)"
    proof (cases "?j = [] \<or> hd ?j \<noteq> CHR ''(''")
      case True
      then show ?thesis by (simp only: f re_sub_start_no_paren)
    next
      case False
      then have j: "?j = CHR ''('' # tl ?j" by (cases ?j) auto
      from False that have "CHR '')'' \<notin> set (drop 2 ?j)" by blast
      then have "CHR '')'' \<notin> set (tl (tl ?j))" by (simp add: drop_Suc numeral_2_eq_2 drop_tl)
      then have "re_sub_start paren_re [] (CHR ''('' # tl ?j) = CHR ''('' # tl ?j"
        by (rule re_sub_start_unclosed)
      then have "re_sub_start paren_re [] ?j = ?j" using j by simp
      then show ?thesis by (simp only: f)
    qed
    have c2: "fst (name_quantity name) = rest"
      if j: "?j = ''('' @ q @ '')'' @ sp @ rest" and r: "q \<noteq> []" "list_all is_space sp"
        "rest = [] \<or> \<not> is_space (hd rest)" "CHR '')'' \<notin> set rest" and "CHR '')'' \<notin> set q"
    proof -
      have "newline \<notin> set ?j" by (rule joined_no_newline)
      then have "newline \<notin> set q" unfolding j by simp
      from re_sub_start_paren [OF r(1) this r(2) r(4) r(3)] show ?thesis
        by (simp only: f j)
    qed
    have s: "snd (name_quantity name) = Some (ds @ us)" by (simp add: nq(2))
    have c: "(joined = [] \<or> hd joined \<noteq> CHR ''('' \<or> CHR '')'' \<notin> set (drop 2 joined) \<longrightarrow>
        fst (name_quantity name) = joined) \<and>
       (joined = ''('' @ q @ '')'' @ sp @ rest \<and> q \<noteq> [] \<and> CHR '')'' \<notin> set q \<and>
          list_all is_space sp \<and> (rest = [] \<or> \<not> is_space (hd rest)) \<and>
          CHR '')'' \<notin> set rest \<longrightarrow>
        fst (name_quantity name) = rest)"
      if "joined = ?j"
      unfolding that using c1 c2 by blast
    from nq(1) s c show ?thesis by blast
  qed
  from a b name_quantity_fresh_milk name_quantity_organic_eggs show ?thesis by blast
qed

theorem name_quantity_spec_witness:
  "\<not> quantity_suffix ''Organic Eggs'' \<and>
   name_quantity ''Organic Eggs'' = (''Organic Eggs'', None) \<and>
   name_quantity ''Fresh Milk 1L.'' = (''Fresh Milk'', Some ''1L'') \<and>
   name_quantity ''(New) Fresh Milk 1L.'' = (''Fresh Milk'', Some ''1L'')"
proof -
  have "\<not> re_search quantity_re at_end ''Organic Eggs''" by code_simp
  then have a: "\<not> quantity_suffix ''Organic Eggs''" using re_search_quantity by blast
  have b: "name_quantity ''Organic Eggs'' = (''Organic Eggs'', None)"
    using name_quantity_spec [where name = "''Organic Eggs''"] a by blast
  have digit: "list_all is_ascii_digit ''1''" by (simp add: is_ascii_digit_def)
  have letter: "list_all is_ascii_letter ''L''" by (simp add: is_ascii_letter_def)
  have j1: "str_join '' '' (butlast (re_split whitespace_re ''Fresh Milk 1L.'')) = ''Fresh Milk''"
    by code_simp
  have j2: "str_join '' '' (butlast (re_split whitespace_re ''(New) Fresh Milk 1L.'')) =
      ''(New) Fresh Milk''"
    by code_simp
  have sp: "list_all is_space '' ''" "\<not> is_space (CHR ''F'')" by (simp_all add: is_space_def)
  have "snd (name_quantity ''Fresh Milk 1L.'') = Some ''1L'' \<and>
      fst (name_quantity ''Fresh Milk 1L.'') = ''Fresh Milk''"
    using name_quantity_spec [where name = "''Fresh Milk 1L.''" and pre = "''Fresh Milk''"
        and ds = "''1''" and us = "''L''" and joined = "''Fresh Milk''"] digit letter j1
    by simp
  then have c: "name_quantity ''Fresh Milk 1L.'' = (''Fresh Milk'', Some ''1L'')"
    by (simp add: prod_eq_iff)
  have "snd (name_quantity ''(New) Fresh Milk 1L.'') = Some ''1L'' \<and>
      fst (name_quantity ''(New) Fresh Milk 1L.'') = ''Fresh Milk''"
    using name_quantity_spec [where name = "''(New) Fresh Milk 1L.''" and pre = "''(New) Fresh Milk''"
        and ds = "''1''" and us = "''L''" and joined = "''(New) Fresh Milk''"
        and q = "''New''" and sp = "'' ''" and rest = "''Fresh Milk''"] digit letter j2 sp
    by simp
  then have d: "name_quantity ''(New) Fresh Milk 1L.'' = (''Fresh Milk'', Some ''1L'')"
    by (simp add: prod_eq_iff)
  from a b c d show ?thesis by blast
qed

text \<open>
  The claim as stated fails: \<open>"Fresh Milk 1 L."\<close> has a space between the number and the
  unit, so the pattern does not match; \<open>quantity\<close> stays \<open>None\<close> and \<open>name\<close> is unchanged.
\<close>

theorem name_quantity_counterexample:
  "name_quantity ''Fresh Milk 1 L.'' = (''Fresh Milk 1 L.'', None)"
  by code_simp

section \<open>The barcode field\<close>

lemma barcode_of_cases:
  "barcode_of sku =
     (let tok = last (re_split whitespace_re (str_strip sku))
      in if \<not> str_isdigit tok \<or> length tok \<noteq> 13 then Inr None
         else if list_all is_decimal tok
           then Inr (if ean13_check_digit (map digit_value tok) = digit_value (tok ! 12)
                     then Some (''EAN-13 '' @ tok) else None)
           else Inl ValueError)"
  by (simp add: barcode_of_def is_valid_ean13_cases Let_def)

lemma barcode_token_no_space:
  "c \<in> set (last (re_split whitespace_re s)) \<Longrightarrow> \<not> is_space c"
proof -
  have "last (re_split whitespace_re s) \<in> set (re_split whitespace_re s)"
    by (simp add: re_split_not_Nil)
  then show "c \<in> set (last (re_split whitespace_re s)) \<Longrightarrow> \<not> is_space c"
    unfolding whitespace_re_def One_nat_def by (rule re_split_no_sep)
qed

lemma last_token:
  assumes "is_space c" "\<forall>x\<in>set tok. \<not> is_space x"
  shows "last (re_split whitespace_re (pre @ [c] @ tok)) = tok"
proof -
  have "re_split whitespace_re ((pre @ [c]) @ tok) =
      butlast (re_split whitespace_re (pre @ [c])) @ [last (re_split whitespace_re (pre @ [c])) @ tok]"
    unfolding whitespace_re_def One_nat_def using assms(2) by (rule re_split_append_token)
  moreover have "last (re_split whitespace_re (pre @ [c])) = []"
    unfolding whitespace_re_def One_nat_def
    by (rule re_split_last_empty) (simp_all add: assms(1))
  ultimately show ?thesis by simp
qed

lemma barcode_of_decimal_token:
  assumes "is_space c" "list_all is_decimal tok" "str_strip sku = pre @ [c] @ tok"
  shows "barcode_of sku =
     Inr (if length tok = 13 \<and> ean13_check_digit (map digit_value tok) = digit_value (tok ! 12)
          then Some (''EAN-13 '' @ tok) else None)"
proof -
  have "\<forall>x\<in>set tok. \<not> is_space x"
    using assms(2) by (auto simp: list_all_iff decimal_not_space)
  then have "last (re_split whitespace_re (str_strip sku)) = tok"
    unfolding assms(3) using assms(1) by (intro last_token)
  then show ?thesis
    using assms(2) by (simp add: barcode_of_def is_valid_ean13_decimal)
qed

lemma re_split_subset: "t \<in> set (re_split r s) \<Longrightarrow> set t \<subseteq> set s"
proof (induction s arbitrary: t rule: length_induct)
  case (1 s)
  show ?case
  proof (cases "s = []")
    case True
    with "1.prems" show ?thesis by (simp add: re_split.simps [of r "[]"])
  next
    case False
    let ?ts = "re_split r (tl s)"
    have len: "length (tl s) < length s" using False by simp
    have ts: "?ts = hd ?ts # tl ?ts" using re_split_not_Nil [of r "tl s"] by simp
    have s: "s = hd s # tl s" using False by simp
    have step: "t \<in> set ((hd s # hd ?ts) # tl ?ts) \<Longrightarrow> set t \<subseteq> set s"
    proof -
      assume "t \<in> set ((hd s # hd ?ts) # tl ?ts)"
      then have "t = hd s # hd ?ts \<or> t \<in> set (tl ?ts)" by simp
      moreover have "hd ?ts \<in> set ?ts" using ts by (metis list.set_intros(1))
      moreover have "set (tl ?ts) \<subseteq> set ?ts" using ts by (metis set_subset_Cons)
      moreover have "\<And>x. x \<in> set ?ts \<Longrightarrow> set x \<subseteq> set (tl s)" using "1.IH" len by blast
      moreover have "set (tl s) \<subseteq> set s" "hd s \<in> set s" using s by (metis set_subset_Cons, metis list.set_intros(1))
      ultimately show "set t \<subseteq> set s" by (elim disjE) (simp, blast, blast)
    qed
    show ?thesis
    proof (cases "match_here r anywhere s")
      case None
      then have "re_split r s = (hd s # hd ?ts) # tl ?ts"
        using False by (subst re_split.simps) (simp add: Let_def)
      with "1.prems" step show ?thesis by simp
    next
      case (Some rest)
      show ?thesis
      proof (cases "length rest < length s")
        case True
        from match_here_suffix [OF Some] obtain n where "rest = drop n s" by blast
        then have sub: "set rest \<subseteq> set s" by (simp add: set_drop_subset)
        have "re_split r s = [] # re_split r rest"
          using False Some True by (subst re_split.simps) simp
        with "1.prems" have "t = [] \<or> t \<in> set (re_split r rest)" by simp
        then show ?thesis
        proof
          assume "t = []" then show ?thesis by simp
        next
          assume "t \<in> set (re_split r rest)"
          then have "set t \<subseteq> set rest" using "1.IH" True by blast
          with sub show ?thesis by blast
        qed
      next
        case notless: False
        then have "re_split r s = (hd s # hd ?ts) # tl ?ts"
          using False Some by (subst re_split.simps) (simp add: Let_def)
        with "1.prems" step show ?thesis by simp
      qed
    qed
  qed
qed

lemma set_str_strip: "set (str_strip s) \<subseteq> set s"
proof -
  have "set (str_strip s) \<subseteq> set (dropWhile is_space s)"
    unfolding str_strip_def using set_dropWhileD by fastforce
  also have "\<dots> \<subseteq> set s" using set_dropWhileD by fastforce
  finally show ?thesis .
qed

lemma barcode_of_ascii:
  assumes "\<forall>c\<in>set sku. (of_char c :: nat) < 128"
  shows "barcode_of sku =
     (let tok = last (re_split whitespace_re (str_strip sku))
      in Inr (if list_all is_decimal tok \<and> length tok = 13 \<and>
                 ean13_check_digit (map digit_value tok) = digit_value (tok ! 12)
              then Some (''EAN-13 '' @ tok) else None))"
proof -
  let ?tok = "last (re_split whitespace_re (str_strip sku))"
  have "?tok \<in> set (re_split whitespace_re (str_strip sku))"
    by (simp add: re_split_not_Nil)
  then have "set ?tok \<subseteq> set (str_strip sku)" by (rule re_split_subset)
  then have ascii: "\<forall>c\<in>set ?tok. (of_char c :: nat) < 128"
    using set_str_strip assms by blast
  have "str_isdigit ?tok \<longleftrightarrow> ?tok \<noteq> [] \<and> list_all is_decimal ?tok"
    using ascii by (auto simp: str_isdigit_def list_all_iff ascii_digit_is_decimal is_decimal_is_digit)
  then show ?thesis
    by (auto simp: barcode_of_cases Let_def)
qed

text \<open>
  Claim C6. The barcode is computed from the last element of the split at whitespace of
  the stripped sku text: \<open>"EAN-13 "\<close> and the code when the validator accepts it, else
  \<open>None\<close>. On a text of ASCII characters this never raises (\<open>barcode_of_ascii\<close>). It
  raises when the token is 13 digits of \<open>str.isdigit\<close> that \<open>int\<close> does not read: the
  defect of the validator (claim C3).
\<close>

theorem barcode_of_raises:
  "barcode_of (''SKU '' @ replicate 13 (CHR 0xB2)) = Inl ValueError"
  by code_simp

theorem barcode_of_raises_witness:
  "last (re_split whitespace_re (str_strip (''SKU '' @ replicate 13 (CHR 0xB2)))) = replicate 13 (CHR 0xB2) \<and>
   isl (barcode_of (''SKU '' @ replicate 13 (CHR 0xB2)))"
proof -
  have "last (re_split whitespace_re (str_strip (''SKU '' @ replicate 13 (CHR 0xB2)))) = replicate 13 (CHR 0xB2)"
    by code_simp
  then show ?thesis using barcode_of_raises by simp
qed

section \<open>The details field and the returned record\<close>

lemma blank_re_eq: "blank_re = [Rep is_blank (Suc 0) None]"
  by (simp add: blank_re_def is_blank_def [abs_def])

lemma re_sub_blank:
  "re_sub blank_re '' '' s =
     (if s = [] then []
      else if is_blank (hd s) then CHR '' '' # re_sub blank_re '' '' (dropWhile is_blank s)
      else hd s # re_sub blank_re '' '' (tl s))"
  unfolding blank_re_eq by (subst re_sub_plus) simp

lemma no_adjacent_Cons:
  "no_adjacent p (a # s) \<longleftrightarrow> (s = [] \<or> \<not> (p a \<and> p (hd s))) \<and> no_adjacent p s"
  by (cases s) auto

lemma re_sub_blank_hd:
  "s \<noteq> [] \<Longrightarrow> \<not> is_blank (hd s) \<Longrightarrow>
     re_sub blank_re '' '' s \<noteq> [] \<and> hd (re_sub blank_re '' '' s) = hd s"
  by (subst re_sub_blank, subst re_sub_blank) simp

lemma dropWhile_hd: "dropWhile p s \<noteq> [] \<Longrightarrow> \<not> p (hd (dropWhile p s))"
  by (rule hd_dropWhile)

lemma re_sub_blank_collapsed: "no_adjacent is_blank (re_sub blank_re '' '' s)"
proof (induction s rule: length_induct)
  case (1 s)
  show ?case
  proof (cases "s = []")
    case True
    then show ?thesis by (subst re_sub_blank) simp
  next
    case False
    show ?thesis
    proof (cases "is_blank (hd s)")
      case True
      let ?d = "dropWhile is_blank s"
      have "length ?d < length s" using False True by (rule length_dropWhile_less)
      then have IH: "no_adjacent is_blank (re_sub blank_re '' '' ?d)" using "1.IH" by blast
      have "re_sub blank_re '' '' ?d = [] \<or> \<not> is_blank (hd (re_sub blank_re '' '' ?d))"
      proof (cases "?d = []")
        case True
        then show ?thesis by (subst re_sub_blank) simp
      next
        case d: False
        then have "\<not> is_blank (hd ?d)" by (rule dropWhile_hd)
        with d show ?thesis using re_sub_blank_hd by simp
      qed
      then show ?thesis
        using False True IH by (subst re_sub_blank) (auto simp: no_adjacent_Cons)
    next
      case notb: False
      have "length (tl s) < length s" using False by simp
      then have "no_adjacent is_blank (re_sub blank_re '' '' (tl s))" using "1.IH" by blast
      then show ?thesis
        using False notb by (subst re_sub_blank) (simp add: no_adjacent_Cons)
    qed
  qed
qed

lemma re_sub_blank_no_tab: "tab \<notin> set (re_sub blank_re '' '' s)"
proof (induction s rule: length_induct)
  case (1 s)
  show ?case
  proof (cases "s = []")
    case True
    then show ?thesis by (subst re_sub_blank) simp
  next
    case False
    show ?thesis
    proof (cases "is_blank (hd s)")
      case True
      have "length (dropWhile is_blank s) < length s" using False True by (rule length_dropWhile_less)
      then have "tab \<notin> set (re_sub blank_re '' '' (dropWhile is_blank s))" using "1.IH" by blast
      then show ?thesis using False True by (subst re_sub_blank) (simp add: tab_def)
    next
      case notb: False
      have "length (tl s) < length s" using False by simp
      then have "tab \<notin> set (re_sub blank_re '' '' (tl s))" using "1.IH" by blast
      moreover have "hd s \<noteq> tab" using notb by (auto simp: is_blank_def)
      ultimately show ?thesis using False notb by (subst re_sub_blank) auto
    qed
  qed
qed

lemma re_sub_blank_keeps_text:
  "filter (\<lambda>c. \<not> is_blank c) (re_sub blank_re '' '' s) = filter (\<lambda>c. \<not> is_blank c) s"
proof (induction s rule: length_induct)
  case (1 s)
  show ?case
  proof (cases "s = []")
    case True
    then show ?thesis by (subst re_sub_blank) simp
  next
    case False
    show ?thesis
    proof (cases "is_blank (hd s)")
      case True
      have "length (dropWhile is_blank s) < length s" using False True by (rule length_dropWhile_less)
      then have IH: "filter (\<lambda>c. \<not> is_blank c) (re_sub blank_re '' '' (dropWhile is_blank s)) =
          filter (\<lambda>c. \<not> is_blank c) (dropWhile is_blank s)" using "1.IH" by blast
      have "filter (\<lambda>c. \<not> is_blank c) (takeWhile is_blank s @ dropWhile is_blank s) =
          filter (\<lambda>c. \<not> is_blank c) (takeWhile is_blank s) @ filter (\<lambda>c. \<not> is_blank c) (dropWhile is_blank s)"
        by (rule filter_append)
      then have "filter (\<lambda>c. \<not> is_blank c) s =
          filter (\<lambda>c. \<not> is_blank c) (takeWhile is_blank s) @ filter (\<lambda>c. \<not> is_blank c) (dropWhile is_blank s)"
        by (simp only: takeWhile_dropWhile_id)
      moreover have "filter (\<lambda>c. \<not> is_blank c) (takeWhile is_blank s) = []"
        by (auto simp: filter_empty_conv dest: set_takeWhileD)
      ultimately show ?thesis
        using False True IH by (subst re_sub_blank) (simp add: is_blank_def)
    next
      case notb: False
      have "length (tl s) < length s" using False by simp
      then have "filter (\<lambda>c. \<not> is_blank c) (re_sub blank_re '' '' (tl s)) =
          filter (\<lambda>c. \<not> is_blank c) (tl s)" using "1.IH" by blast
      moreover have "filter (\<lambda>c. \<not> is_blank c) s = hd s # filter (\<lambda>c. \<not> is_blank c) (tl s)"
        using False notb by (cases s) simp_all
      ultimately show ?thesis
        using False notb by (subst re_sub_blank) simp
    qed
  qed
qed

lemma str_strip_infix: "\<exists>u v. s = u @ str_strip s @ v"
proof -
  let ?y = "dropWhile is_space s"
  have "rev (rev ?y) = rev (takeWhile is_space (rev ?y) @ dropWhile is_space (rev ?y))"
    by (simp only: takeWhile_dropWhile_id)
  then have "?y = rev (dropWhile is_space (rev ?y)) @ rev (takeWhile is_space (rev ?y))"
    by (simp only: rev_rev_ident rev_append)
  then have y: "?y = str_strip s @ rev (takeWhile is_space (rev ?y))"
    by (simp only: str_strip_def)
  have "s = takeWhile is_space s @ ?y"
    by (simp only: takeWhile_dropWhile_id)
  then have "s = takeWhile is_space s @ str_strip s @ rev (takeWhile is_space (rev ?y))"
    using y by (rule back_subst [of "\<lambda>x. s = takeWhile is_space s @ x"])
  then show ?thesis by blast
qed

lemma no_adjacent_append: "no_adjacent p (u @ v) \<Longrightarrow> no_adjacent p u \<and> no_adjacent p v"
proof (induction u)
  case Nil
  then show ?case by simp
next
  case (Cons a u)
  then show ?case by (cases u; cases v) (auto simp: no_adjacent_Cons)
qed

lemma no_adjacent_str_strip: "no_adjacent p s \<Longrightarrow> no_adjacent p (str_strip s)"
proof -
  assume a: "no_adjacent p s"
  obtain u v where "s = u @ str_strip s @ v" using str_strip_infix by blast
  with a have "no_adjacent p (u @ str_strip s @ v)" by simp
  then show ?thesis using no_adjacent_append by blast
qed

lemma trimmed_str_strip: "trimmed (str_strip s)"
proof (cases "str_strip s = []")
  case True
  then show ?thesis by (simp add: trimmed_def)
next
  case False
  let ?y = "dropWhile is_space s"
  let ?z = "dropWhile is_space (rev ?y)"
  have z: "?z \<noteq> []" using False by (simp add: str_strip_def)
  then have "\<not> is_space (hd ?z)" by (rule hd_dropWhile)
  then have l: "\<not> is_space (last (str_strip s))" using z by (simp add: str_strip_def last_rev)
  have y: "?y \<noteq> []"
  proof
    assume "?y = []"
    with z show False by simp
  qed
  then have hy: "\<not> is_space (hd ?y)" by (rule hd_dropWhile)
  have "last (takeWhile is_space (rev ?y) @ ?z) = last ?z"
    using z by (rule last_appendR)
  then have "last ?z = last (rev ?y)"
    by (simp only: takeWhile_dropWhile_id)
  then have "hd (str_strip s) = hd ?y" using y by (simp add: str_strip_def hd_rev last_rev)
  with hy l False show ?thesis by (simp add: trimmed_def)
qed

lemma details_of_timeout: "details_of (Inl TimeoutError) = Inr None"
  by (simp add: details_of_def)

lemma details_of_present:
  "details_of (Inr d) = Inr (Some (str_strip (re_sub blank_re '' '' d)))"
  by (simp add: details_of_def)

lemma scrape_page_details:
  "scrape_page float_of (web\<lparr>details_content := Inl TimeoutError\<rparr>) on_url =
   scrape_page float_of (web\<lparr>details_content := Inr d\<rparr>) on_url"
  by (simp add: scrape_page_def details_of_def and_then_def)

lemma run_on_browser_details:
  "run_on_browser float_of (web\<lparr>details_content := Inl TimeoutError\<rparr>) on_url c b es =
   run_on_browser float_of (web\<lparr>details_content := Inr d\<rparr>) on_url c b es"
  by (simp add: run_on_browser_def scrape_page_details [of float_of web on_url d] split: option.splits)

lemma extract_product_info_details:
  "extract_product_info float_of (web\<lparr>details_content := Inl TimeoutError\<rparr>) on_url browser =
   extract_product_info float_of (web\<lparr>details_content := Inr d\<rparr>) on_url browser"
  by (simp add: extract_product_info_def run_on_browser_details [of float_of web on_url _ _ _ d]
      split: option.splits sum.splits)

lemma scrape_page_Inr:
  "scrape_page float_of web on_url = Inr data \<longleftrightarrow>
     (\<exists>name images sku barcode details price price' alts labels.
        goto_result web = None \<and> name_content web = Inr name \<and> image_srcs web = Inr images \<and>
        sku_content web = Inr sku \<and> barcode_of sku = Inr barcode \<and>
        details_of (details_content web) = Inr details \<and> price_content web = Inr price \<and>
        float_of price = Some price' \<and> label_alts web = Inr alts \<and> labels_of alts = Inr labels \<and>
        data = [(''name'', PyStr (fst (name_quantity name))),
                (''quantity'', opt_str (snd (name_quantity name))),
                (''price'', PyFloat price'),
                (''images'', PyList (map opt_str images)),
                (''barcode'', opt_str barcode),
                (''labels'', PyList (map PyStr labels)),
                (''store_url'', PyStr on_url)])"
  by (auto simp: scrape_page_def and_then_def raise_if_def or_raise_def
      split: sum.splits option.splits)

lemma extract_product_info_Inr:
  "snd (extract_product_info float_of web on_url browser) = Inr data \<Longrightarrow>
     scrape_page float_of web on_url = Inr data"
  by (auto simp: extract_product_info_def run_on_browser_def split: option.splits sum.splits)

text \<open>
  Claim C7, as amended. A timeout of the details is caught: \<open>details\<close> is \<open>None\<close> and the
  task goes on as it does with details present, so the timeout never leaves the task.
  Details that are present have every run of spaces and tabs replaced by one space (the
  other characters, newlines among them, are kept) and are then stripped of leading and
  trailing whitespace.
\<close>

theorem details_soft_failure:
  "details_of (Inl TimeoutError) = Inr None \<and>
   extract_product_info float_of (web\<lparr>details_content := Inl TimeoutError\<rparr>) on_url browser =
     extract_product_info float_of (web\<lparr>details_content := Inr d\<rparr>) on_url browser \<and>
   details_of (Inr d) = Inr (Some (str_strip (re_sub blank_re '' '' d))) \<and>
   filter (\<lambda>c. \<not> is_blank c) (re_sub blank_re '' '' d) = filter (\<lambda>c. \<not> is_blank c) d \<and>
   no_adjacent is_blank (str_strip (re_sub blank_re '' '' d)) \<and>
   tab \<notin> set (str_strip (re_sub blank_re '' '' d)) \<and>
   trimmed (str_strip (re_sub blank_re '' '' d))"
proof -
  have "tab \<notin> set (str_strip (re_sub blank_re '' '' d))"
    using set_str_strip [of "re_sub blank_re '' '' d"] re_sub_blank_no_tab [of d] by blast
  then show ?thesis
    using details_of_timeout extract_product_info_details [of float_of web on_url browser d]
      details_of_present [of d] re_sub_blank_keeps_text [of d]
      no_adjacent_str_strip [OF re_sub_blank_collapsed, of d] trimmed_str_strip
    by (intro conjI)
qed

theorem details_soft_failure_witness:
  "snd (extract_product_info sample_float (sample_site\<lparr>details_content := Inl TimeoutError\<rparr>)
      ''https://shop/p1'' None) =
   snd (extract_product_info sample_float sample_site ''https://shop/p1'' None) \<and>
   isl (snd (extract_product_info sample_float sample_site ''https://shop/p1'' None)) = False \<and>
   details_of (details_content sample_site) = Inr (Some ''Rich taste'')"
proof -
  have a: "sample_site\<lparr>details_content := Inr ('' Rich  taste'' @ [tab, newline])\<rparr> = sample_site"
    by (simp add: sample_site_def)
  have b: "isl (snd (extract_product_info sample_float sample_site ''https://shop/p1'' None)) = False"
    by code_simp
  have c: "str_strip (re_sub blank_re '' '' ('' Rich  taste'' @ [tab, newline])) = ''Rich taste''"
    by code_simp
  have d: "details_content sample_site = Inr ('' Rich  taste'' @ [tab, newline])"
    by (simp add: sample_site_def)
  show ?thesis
    using details_soft_failure [of sample_float sample_site "''https://shop/p1''" None
        "'' Rich  taste'' @ [tab, newline]"] b
    unfolding a c d by simp
qed

text \<open>
  The claim as stated fails: only runs of spaces and tabs are collapsed; two newlines in
  a row stay.
\<close>

theorem details_counterexample:
  "details_of (Inr (''a'' @ [newline, newline] @ ''b'')) = Inr (Some (''a'' @ [newline, newline] @ ''b'')) \<and>
   \<not> whitespace_collapsed (''a'' @ [newline, newline] @ ''b'')"
  by code_simp

text \<open>
  Claim C10. A record the task returns has exactly the keys \<open>name\<close>, \<open>quantity\<close>, \<open>price\<close>,
  \<open>images\<close>, \<open>barcode\<close>, \<open>labels\<close>, \<open>store_url\<close>; \<open>store_url\<close> is the input URL; there is
  no key \<open>details\<close>, and the record is the same whatever the details are.
\<close>

theorem extract_product_info_record:
  assumes "snd (extract_product_info float_of web on_url browser) = Inr data"
  shows "map fst data =
           [''name'', ''quantity'', ''price'', ''images'', ''barcode'', ''labels'', ''store_url''] \<and>
         map_of data ''store_url'' = Some (PyStr on_url) \<and>
         ''details'' \<notin> set (map fst data) \<and>
         snd (extract_product_info float_of (web\<lparr>details_content := Inr d\<rparr>) on_url browser) = Inr data \<and>
         snd (extract_product_info float_of (web\<lparr>details_content := Inl TimeoutError\<rparr>) on_url browser) = Inr data"
proof -
  from assms have s: "scrape_page float_of web on_url = Inr data"
    by (rule extract_product_info_Inr)
  then have keys: "map fst data =
      [''name'', ''quantity'', ''price'', ''images'', ''barcode'', ''labels'', ''store_url'']"
    and url: "map_of data ''store_url'' = Some (PyStr on_url)"
    unfolding scrape_page_Inr by auto
  have nodetails: "''details'' \<notin> set (map fst data)" unfolding keys by simp
  from s have ok: "\<exists>x. details_of (details_content web) = Inr x"
    unfolding scrape_page_Inr by auto
  have same: "scrape_page float_of (web\<lparr>details_content := Inr d\<rparr>) on_url = scrape_page float_of web on_url"
    using ok by (auto simp: scrape_page_def and_then_def details_of_def split: sum.splits)
  have "extract_product_info float_of (web\<lparr>details_content := Inr d\<rparr>) on_url browser =
      extract_product_info float_of web on_url browser"
    by (simp add: extract_product_info_def run_on_browser_def same split: option.splits sum.splits)
  then have d1: "snd (extract_product_info float_of (web\<lparr>details_content := Inr d\<rparr>) on_url browser) = Inr data"
    using assms by simp
  then have "snd (extract_product_info float_of (web\<lparr>details_content := Inl TimeoutError\<rparr>) on_url browser) = Inr data"
    by (simp only: extract_product_info_details [of float_of web on_url browser d])
  with keys url nodetails d1 show ?thesis by blast
qed

lemma sample_record:
  "extract_product_info sample_float sample_site ''https://shop/p1'' None =
     ([Launched 7, PageOpened 7, PageClosed 7, BrowserClosed 7],
      Inr [(''name'', PyStr ''Fresh Milk''), (''quantity'', PyStr ''1L''),
           (''price'', PyFloat (1250, 2)),
           (''images'', PyList [PyStr ''/img/milk.jpg'', PyNone]),
           (''barcode'', PyStr ''EAN-13 4006381333931''),
           (''labels'', PyList [PyStr ''Organic'']),
           (''store_url'', PyStr ''https://shop/p1'')])"
  by code_simp

theorem extract_product_info_record_witness:
  "(\<exists>data. snd (extract_product_info sample_float sample_site ''https://shop/p1'' None) = Inr data \<and>
      map fst data =
        [''name'', ''quantity'', ''price'', ''images'', ''barcode'', ''labels'', ''store_url''] \<and>
      map_of data ''store_url'' = Some (PyStr ''https://shop/p1'') \<and>
      map_of data ''details'' = None)"
proof -
  obtain data where d: "snd (extract_product_info sample_float sample_site ''https://shop/p1'' None) = Inr data"
    by (simp add: sample_record)
  from extract_product_info_record [OF d]
  have "map fst data =
        [''name'', ''quantity'', ''price'', ''images'', ''barcode'', ''labels'', ''store_url'']"
    and "map_of data ''store_url'' = Some (PyStr ''https://shop/p1'')"
    and "''details'' \<notin> set (map fst data)"
    by blast+
  then show ?thesis using d by (auto simp: map_of_eq_None_iff)
qed

section \<open>The browser session and the price\<close>

lemma supplied_browser_never_closed:
  "BrowserClosed b' \<notin> set (fst (extract_product_info float_of web on_url (Some b)))"
  by (simp add: extract_product_info_def run_on_browser_def split: option.splits sum.splits)

lemma own_browser_closed_on_success:
  "snd (extract_product_info float_of web on_url None) = Inr data \<Longrightarrow>
     \<exists>b. launch_result web = Inr b \<and>
         fst (extract_product_info float_of web on_url None) =
           [Launched b, PageOpened b, PageClosed b, BrowserClosed b]"
  by (auto simp: extract_product_info_def run_on_browser_def split: option.splits sum.splits)

lemma own_browser_open_on_failure:
  "launch_result web = Inr b \<Longrightarrow> snd (extract_product_info float_of web on_url None) = Inl e \<Longrightarrow>
     still_open (fst (extract_product_info float_of web on_url None)) b"
  by (auto simp: extract_product_info_def run_on_browser_def still_open_def
      split: option.splits sum.splits)

text \<open>
  Claim C4. A browser the caller supplied is never closed
  (\<open>supplied_browser_never_closed\<close>), and the task's own browser is closed when the task
  succeeds (\<open>own_browser_closed_on_success\<close>). When the task fails after the launch, its
  own browser stays open (\<open>own_browser_open_on_failure\<close>): nothing closes it on that
  path. Here the price text is \<open>"N/A"\<close>.
\<close>

theorem extract_product_info_leaks_browser:
  "extract_product_info sample_float (sample_site\<lparr>price_content := Inr ''N/A''\<rparr>)
     ''https://shop/p1'' None = ([Launched 7, PageOpened 7], Inl ValueError)"
  by code_simp

theorem extract_product_info_leaks_browser_witness:
  "launch_result (sample_site\<lparr>price_content := Inr ''N/A''\<rparr>) = Inr 7 \<and>
   still_open (fst (extract_product_info sample_float (sample_site\<lparr>price_content := Inr ''N/A''\<rparr>)
     ''https://shop/p1'' None)) 7"
  unfolding extract_product_info_leaks_browser by (simp add: still_open_def sample_site_def)



lemma unparseable_scrape_page:
  "unparseable float_of web \<Longrightarrow> \<exists>e. scrape_page float_of web on_url = Inl e"
  by (auto simp: unparseable_def scrape_page_def and_then_def raise_if_def or_raise_def
      split: sum.splits option.splits)

lemma unparseable_raises:
  "unparseable float_of web \<Longrightarrow> \<exists>e. snd (extract_product_info float_of web on_url browser) = Inl e"
  using unparseable_scrape_page [of float_of web on_url]
  by (auto simp: extract_product_info_def run_on_browser_def split: option.splits sum.splits)

lemma unparseable_value_error:
  assumes "unparseable float_of web" "goto_result web = None" "name_content web = Inr name"
    "image_srcs web = Inr images" "sku_content web = Inr sku" "barcode_of sku = Inr barcode"
    "details_of (details_content web) = Inr details"
  shows "scrape_page float_of web on_url = Inl ValueError"
  using assms
  by (auto simp: unparseable_def scrape_page_def and_then_def raise_if_def or_raise_def)

lemma collect_Inl: "r \<in> set rs \<Longrightarrow> r = Inl e \<Longrightarrow> \<exists>e'. collect rs = Inl e'"
  by (induction rs) (auto split: sum.splits)

lemma collect_Inr_length: "collect rs = Inr vs \<Longrightarrow> length vs = length rs"
  by (induction rs arbitrary: vs) (auto split: sum.splits)

text \<open>
  Claim C5. A price text that \<open>float\<close> does not read makes the task raise; the run is
  retried once, so two attempts are made; when the price is unreadable in the retry too,
  the task run fails, \<open>get_products\<close> raises and no record is written.
\<close>

theorem malformed_price_is_terminal:
  assumes first: "unparseable float_of (web 0 url)"
  shows "(\<exists>e. snd (extract_product_info float_of (web 0 url) url None) = Inl e) \<and>
         fst (extract_product_info_task float_of web url) = 2 \<and>
         (unparseable float_of (web 1 url) \<longrightarrow>
            (\<exists>e. snd (extract_product_info_task float_of web url) = Inl e) \<and>
            (url \<in> set product_links \<longrightarrow>
               (\<exists>e. get_products float_of web product_links = Inl e) \<and>
               written_records (get_products float_of web product_links) = []))"
proof -
  from first obtain e0 where e0: "snd (extract_product_info float_of (web 0 url) url None) = Inl e0"
    using unparseable_raises by blast
  then have task: "extract_product_info_task float_of web url =
      (2, snd (extract_product_info float_of (web 1 url) url None))"
    by (simp add: extract_product_info_task_def task_run_def numeral_2_eq_2)
  have "(\<exists>e. snd (extract_product_info_task float_of web url) = Inl e) \<and>
        (url \<in> set product_links \<longrightarrow>
           (\<exists>e. get_products float_of web product_links = Inl e) \<and>
           written_records (get_products float_of web product_links) = [])"
    if second: "unparseable float_of (web 1 url)"
  proof -
    from second obtain e1 where e1: "snd (extract_product_info float_of (web 1 url) url None) = Inl e1"
      using unparseable_raises by blast
    then have t: "snd (extract_product_info_task float_of web url) = Inl e1"
      by (simp add: task)
    have "\<exists>e. get_products float_of web product_links = Inl e" if "url \<in> set product_links"
    proof -
      have "snd (extract_product_info_task float_of web url) \<in>
          set (map (\<lambda>url. snd (extract_product_info_task float_of web url)) product_links)"
        using that by simp
      then show ?thesis
        unfolding get_products_def map_result_def using t by (rule collect_Inl)
    qed
    then show ?thesis using t by (auto simp: written_records_def)
  qed
  then show ?thesis using e0 task by auto
qed

theorem malformed_price_is_terminal_witness:
  "unparseable sample_float (sample_site\<lparr>price_content := Inr ''N/A''\<rparr>) \<and>
   extract_product_info_task sample_float (\<lambda>i url. sample_site\<lparr>price_content := Inr ''N/A''\<rparr>)
     ''https://shop/p1'' = (2, Inl ValueError) \<and>
   get_products sample_float (\<lambda>i url. sample_site\<lparr>price_content := Inr ''N/A''\<rparr>)
     [''https://shop/p1''] = Inl ValueError"
proof -
  let ?web = "\<lambda>(i :: nat) (url :: string). sample_site\<lparr>price_content := Inr ''N/A''\<rparr>"
  have "sample_float ''N/A'' = None" by code_simp
  then have u: "unparseable sample_float (sample_site\<lparr>price_content := Inr ''N/A''\<rparr>)"
    by (simp add: unparseable_def)
  have v: "snd (extract_product_info_task sample_float ?web ''https://shop/p1'') = Inl ValueError"
    by code_simp
  have w: "get_products sample_float ?web [''https://shop/p1''] = Inl ValueError"
    by code_simp
  from malformed_price_is_terminal [of sample_float ?web "''https://shop/p1''" "[''https://shop/p1'']"] u
  have "fst (extract_product_info_task sample_float ?web ''https://shop/p1'') = 2" by simp
  with v have "extract_product_info_task sample_float ?web ''https://shop/p1'' = (2, Inl ValueError)"
    by (simp add: prod_eq_iff)
  with u w show ?thesis by simp
qed

section \<open>The stabilization loop and its budget\<close>

lemma funpow3: "(f ^^ 3) x = f (f (f x))"
  by (simp add: numeral_3_eq_3)

lemma loop_body_Inr:
  assumes "loop_body ops s = Inr s'"
  shows "total_wait_time s' = total_wait_time s + 2000"
    and "product_counts s' = deque_append 3 (product_counts s) (last_product_count s')"
  using assms
  by (auto simp: loop_body_def scroll_once_def and_then_def funpow3 wait_time_def
      split: sum.splits)

lemma length_deque_append: "length (deque_append 3 d x) = min 3 (Suc (length d))"
  by (auto simp: deque_append_def)

lemma loop_body_buffer: "loop_body ops s = Inr s' \<Longrightarrow> length (product_counts s') \<le> 3"
  by (simp add: loop_body_Inr(2) length_deque_append)

lemma count_list_le_length: "count_list xs x \<le> length xs"
  by (induction xs) auto

lemma count_list_full: "count_list xs x = length xs \<longleftrightarrow> list_all (\<lambda>n. n = x) xs"
proof (induction xs)
  case Nil
  then show ?case by simp
next
  case (Cons a xs)
  then show ?case using count_list_le_length [of xs x] by auto
qed

lemma keep_scrolling_iff:
  assumes "length (product_counts s) \<le> 3"
  shows "keep_scrolling s \<longleftrightarrow> \<not> stops s"
proof -
  have "count_list (product_counts s) (last_product_count s) < 3 \<longleftrightarrow> \<not> plateau s"
    using assms count_list_le_length [of "product_counts s" "last_product_count s"]
      count_list_full [of "product_counts s" "last_product_count s"]
    unfolding plateau_def by linarith
  then show ?thesis by (auto simp: keep_scrolling_def stops_def)
qed

lemma scroll_loop_stops:
  "length (product_counts s) \<le> 3 \<Longrightarrow> scroll_loop ops s = Inr s' \<Longrightarrow> stops s'"
proof (induction ops s rule: scroll_loop.induct)
  case (1 ops s)
  show ?case
  proof (cases "keep_scrolling s")
    case True
    with "1.prems"(2) obtain s1 where s1: "loop_body ops s = Inr s1" "scroll_loop ops s1 = Inr s'"
      by (subst (asm) scroll_loop.simps) (auto split: sum.splits)
    from "1.IH" [OF True s1(1) loop_body_buffer [OF s1(1)] s1(2)] show ?thesis .
  next
    case False
    with "1.prems"(2) have "s' = s" by (subst (asm) scroll_loop.simps) simp
    with False "1.prems"(1) show ?thesis by (simp add: keep_scrolling_iff)
  qed
qed

lemma scroll_loop_counter:
  "scroll_loop ops s = Inr s' \<Longrightarrow> \<exists>n. total_wait_time s' = total_wait_time s + 2000 * n"
proof (induction ops s rule: scroll_loop.induct)
  case (1 ops s)
  show ?case
  proof (cases "keep_scrolling s")
    case True
    with "1.prems" obtain s1 where s1: "loop_body ops s = Inr s1" "scroll_loop ops s1 = Inr s'"
      by (subst (asm) scroll_loop.simps) (auto split: sum.splits)
    from "1.IH" [OF True s1] obtain n where "total_wait_time s' = total_wait_time s1 + 2000 * n"
      by blast
    then have "total_wait_time s' = total_wait_time s + 2000 * Suc n"
      by (simp add: loop_body_Inr(1) [OF s1(1)])
    then show ?thesis by blast
  next
    case False
    with "1.prems" have "s' = s" by (subst (asm) scroll_loop.simps) simp
    then have "total_wait_time s' = total_wait_time s + 2000 * 0" by simp
    then show ?thesis by blast
  qed
qed

lemmas loop_eval = scroll_loop.simps keep_scrolling_def loop_body_def scroll_once_def
  initial_state_def deque_append_def wait_time_def max_wait_time_def and_then_def funpow3

lemma plateau_source_run:
  "scroll_loop plateau_source (initial_state 0 12) =
     Inr \<lparr>page = 12, product_counts = [42, 42, 42], last_product_count = 42,
          total_wait_time = 8000\<rparr>"
  by (simp add: loop_eval plateau_source_def)

lemma plateau_source_returns:
  "map_sum id length (find_product_pages plateau_source ''https://shop/c1'') = Inr 42"
  by (simp add: find_product_pages_def and_then_def plateau_source_run [unfolded plateau_source_def]
      plateau_source_def)

lemma growing_body:
  "loop_body growing_source s =
     Inr (s\<lparr>page := page s + 3500,
            last_product_count := page s + 3500,
            product_counts := deque_append 3 (product_counts s) (page s + 3500),
            total_wait_time := total_wait_time s + 2000\<rparr>)"
  by (simp add: loop_body_def scroll_once_def and_then_def funpow3 growing_source_def wait_time_def
      add.commute)

lemma count_list_distinct: "distinct xs \<Longrightarrow> count_list xs x \<le> 1"
  by (induction xs) (auto simp: count_list_0_iff)

lemma growing_loop:
  "k + n = 150 \<Longrightarrow> total_wait_time s = 2000 * k \<Longrightarrow> page s = 3000 + 3500 * k \<Longrightarrow>
   distinct (product_counts s) \<Longrightarrow> \<forall>x\<in>set (product_counts s). x \<le> page s \<Longrightarrow>
   \<exists>s'. scroll_loop growing_source s = Inr s' \<and> total_wait_time s' = 300000 \<and>
        page s' = 528000 \<and> last_product_count s' = (if n = 0 then last_product_count s else 528000) \<and>
        distinct (product_counts s')"
proof (induction n arbitrary: k s)
  case 0
  then have "\<not> keep_scrolling s" by (simp add: keep_scrolling_def max_wait_time_def)
  then have "scroll_loop growing_source s = Inr s" by (subst scroll_loop.simps) simp
  with 0 show ?case by simp
next
  case (Suc n)
  let ?s1 = "s\<lparr>page := page s + 3500,
            last_product_count := page s + 3500,
            product_counts := deque_append 3 (product_counts s) (page s + 3500),
            total_wait_time := total_wait_time s + 2000\<rparr>"
  have "count_list (product_counts s) (last_product_count s) \<le> 1"
    using Suc.prems(4) by (rule count_list_distinct)
  then have keep: "keep_scrolling s"
    using Suc.prems(1,2) by (simp add: keep_scrolling_def max_wait_time_def)
  have step: "scroll_loop growing_source s = scroll_loop growing_source ?s1"
    using keep by (subst scroll_loop.simps) (simp add: growing_body)
  have "distinct (product_counts s @ [page s + 3500])" using Suc.prems(4,5) by auto
  then have "distinct (deque_append 3 (product_counts s) (page s + 3500))"
    unfolding deque_append_def by (rule distinct_drop)
  then have d: "distinct (product_counts ?s1)" by simp
  have le: "\<forall>x\<in>set (product_counts ?s1). x \<le> page ?s1"
    using Suc.prems(5) by (auto simp: deque_append_def dest!: in_set_dropD)
  have "Suc k + n = 150" using Suc.prems(1) by simp
  moreover have "total_wait_time ?s1 = 2000 * Suc k" using Suc.prems(2) by simp
  moreover have "page ?s1 = 3000 + 3500 * Suc k" using Suc.prems(3) by simp
  ultimately obtain s' where s': "scroll_loop growing_source ?s1 = Inr s'"
    "total_wait_time s' = 300000" "page s' = 528000"
    "last_product_count s' = (if n = 0 then last_product_count ?s1 else 528000)"
    "distinct (product_counts s')"
    using Suc.IH [of "Suc k" ?s1] d le by blast
  have "last_product_count s' = 528000"
  proof (cases "n = 0")
    case True
    then have "k = 149" using Suc.prems(1) by simp
    then show ?thesis using s'(4) True Suc.prems(3) by simp
  next
    case False
    then show ?thesis using s'(4) by simp
  qed
  with s' step show ?case by simp
qed

lemma growing_run:
  "\<exists>s'. scroll_loop growing_source (initial_state 3000 3000) = Inr s' \<and>
        total_wait_time s' = 300000 \<and> page s' = 528000 \<and> last_product_count s' = 528000 \<and>
        distinct (product_counts s')"
  using growing_loop [of 0 150 "initial_state 3000 3000"] by (simp add: initial_state_def)

lemma distinct_not_plateau: "distinct (product_counts s) \<Longrightarrow> \<not> plateau s"
proof
  assume d: "distinct (product_counts s)" and "plateau s"
  then obtain a b c where "product_counts s = [a, b, c]" and "a = last_product_count s"
    "b = last_product_count s"
    unfolding plateau_def by (cases "product_counts s" rule: list.exhaust;
      cases "tl (product_counts s)"; cases "tl (tl (product_counts s))") auto
  with d show False by simp
qed

text \<open>
  Claim C1. The loop is total, and it stops when the buffer holds 3 samples equal to the
  latest one or when its counter has reached the budget (\<open>scroll_loop_stops\<close>). But the
  counter is not the time waited: a round waits 3 times 500 and then 2000, which is 3500,
  and adds 4 times 500, which is 2000, to the counter; the first wait of 3000 is not counted
  at all. On the source that never stops growing, whose page state is the time waited, the
  loop returns with the counter at 300000 after waits of 528000 in all, with no plateau:
  well after the budget of 300000 that the counter is said to measure. The task then
  returns the links of the page as it is, not an error.
\<close>

theorem stabilization_loop_overruns_budget:
  "map_sum id page (scroll_loop growing_source (initial_state 3000 3000)) = Inr 528000 \<and>
   map_sum id total_wait_time (scroll_loop growing_source (initial_state 3000 3000)) = Inr 300000 \<and>
   map_sum id plateau (scroll_loop growing_source (initial_state 3000 3000)) = Inr False \<and>
   find_product_pages growing_source on_url = Inr [Some ''/p/1'', None]"
proof -
  from growing_run obtain s' where s': "scroll_loop growing_source (initial_state 3000 3000) = Inr s'"
    "total_wait_time s' = 300000" "page s' = 528000" "distinct (product_counts s')"
    by blast
  have "find_product_pages growing_source on_url = Inr [Some ''/p/1'', None]"
    using s'(1) by (simp add: find_product_pages_def and_then_def growing_source_def)
  then show ?thesis using s' distinct_not_plateau [OF s'(4)] by simp
qed

theorem stabilization_loop_overruns_budget_witness:
  "\<exists>s. scroll_loop growing_source (initial_state 3000 3000) = Inr s \<and>
       total_wait_time s = max_wait_time \<and> max_wait_time < page s \<and> \<not> plateau s \<and>
       \<not> keep_scrolling s"
proof -
  from stabilization_loop_overruns_budget [of "[]"]
  obtain s where s: "scroll_loop growing_source (initial_state 3000 3000) = Inr s"
    "page s = 528000" "total_wait_time s = 300000" "\<not> plateau s"
    by (cases "scroll_loop growing_source (initial_state 3000 3000)") auto
  then show ?thesis by (auto simp: max_wait_time_def keep_scrolling_def)
qed

section \<open>Flattening between the stages\<close>

lemma chain_from_iterable_concat: "chain_from_iterable xss = concat xss"
  by (induction xss) simp_all

lemma chain_from_iterable_nth:
  "i < length xss \<Longrightarrow> j < length (xss ! i) \<Longrightarrow>
     chain_from_iterable xss ! (sum_list (map length (take i xss)) + j) = xss ! i ! j"
proof (induction xss arbitrary: i)
  case Nil
  then show ?case by simp
next
  case (Cons xs xss)
  show ?case
  proof (cases i)
    case 0
    with Cons.prems show ?thesis by (simp add: nth_append)
  next
    case (Suc i')
    with Cons.prems Cons.IH [of i'] show ?thesis by (simp add: nth_append add.assoc)
  qed
qed

lemma map_result_order:
  "map_result task inputs = Inr outs \<Longrightarrow>
     length outs = length inputs \<and> (\<forall>i<length inputs. task (inputs ! i) = Inr (outs ! i))"
  unfolding map_result_def
proof (induction inputs arbitrary: outs)
  case Nil
  then show ?case by simp
next
  case (Cons x xs)
  then show ?case by (auto split: sum.splits simp: nth_Cons split: nat.splits)
qed

lemma main_flow_order:
  assumes "map_result f1 nav_links = Inr category_pages"
    and "map_result f2 (chain_from_iterable category_pages) = Inr products_pages"
  shows "main_flow f1 f2 g nav_links = g (concat products_pages)"
  using assms by (simp add: main_flow_def and_then_def chain_from_iterable_concat)

text \<open>
  Claim C8. The flattening between the stages is the concatenation of the per-input lists
  in the order of the inputs: element \<open>j\<close> of list \<open>i\<close> comes after all elements of the
  lists before \<open>i\<close>; \<open>[[a, b], [c]]\<close> becomes \<open>[a, b, c]\<close>.
\<close>

theorem chain_from_iterable_order:
  "chain_from_iterable xss = concat xss \<and>
   length (chain_from_iterable xss) = sum_list (map length xss) \<and>
   (\<forall>i<length xss. \<forall>j<length (xss ! i).
      chain_from_iterable xss ! (sum_list (map length (take i xss)) + j) = xss ! i ! j) \<and>
   chain_from_iterable [[a, b], [c]] = [a, b, c]"
proof (intro conjI allI impI)
  show "chain_from_iterable xss = concat xss" by (rule chain_from_iterable_concat)
  show "length (chain_from_iterable xss) = sum_list (map length xss)"
    by (simp add: chain_from_iterable_concat length_concat)
  show "chain_from_iterable [[a, b], [c]] = [a, b, c]" by simp
  show "chain_from_iterable xss ! (sum_list (map length (take i xss)) + j) = xss ! i ! j"
    if "i < length xss" "j < length (xss ! i)" for i j
    using that by (rule chain_from_iterable_nth)
qed

theorem chain_from_iterable_order_witness:
  "chain_from_iterable [[''a'', ''b''], [''c'']] ! (sum_list (map length (take 1 [[''a'', ''b''], [''c'']])) + 0) = ''c'' \<and>
   chain_from_iterable [[''a'', ''b''], [''c'']] ! (sum_list (map length (take 0 [[''a'', ''b''], [''c'']])) + 1) = ''b'' \<and>
   chain_from_iterable [[''a'', ''b''], [''c'']] = [''a'', ''b'', ''c'']"
  using chain_from_iterable_order [of "[[''a'', ''b''], [''c'']]" "''a''" "''b''" "''c''"]
  by (auto simp: nth_Cons split: nat.splits)

section \<open>The cache key\<close>

lemma my_custom_policy_eq: "my_custom_policy = Compound [Inputs [''browser''], TaskSource]"
  by (simp add: my_custom_policy_def policy_add_def INPUTS_def TASK_SOURCE_def)

text \<open>
  Claim C9. The cache key of the extraction task does not depend on the browser argument:
  it is the hash of the key of the inputs without \<open>browser\<close> and of the task source.
\<close>

theorem fingerprint_ignores_browser:
  "fingerprint hash_inputs source_key hash_keys on_url browser1 =
     fingerprint hash_inputs source_key hash_keys on_url browser2 \<and>
   fingerprint hash_inputs source_key hash_keys on_url browser1 =
     hash_keys [hash_inputs [(''on_url'', Url on_url)], source_key]"
  by (simp add: fingerprint_def my_custom_policy_eq)

theorem fingerprint_ignores_browser_witness:
  "fingerprint (\<lambda>inputs. [inputs]) [] concat ''https://shop/p1'' (Some 1) =
     fingerprint (\<lambda>inputs. [inputs]) [] concat ''https://shop/p1'' None \<and>
   fingerprint (\<lambda>inputs. [inputs]) [] concat ''https://shop/p1'' (Some 1) \<noteq>
     fingerprint (\<lambda>inputs. [inputs]) [] concat ''https://shop/p2'' (Some 1) \<and>
   compute_key (\<lambda>inputs. [inputs]) [] concat (policy_add INPUTS TASK_SOURCE)
       [(''on_url'', Url ''https://shop/p1''), (''browser'', Browser (Some 1))] \<noteq>
     compute_key (\<lambda>inputs. [inputs]) [] concat (policy_add INPUTS TASK_SOURCE)
       [(''on_url'', Url ''https://shop/p1''), (''browser'', Browser None)]"
  using fingerprint_ignores_browser [of "\<lambda>inputs. [inputs]" "[]" concat "''https://shop/p1''" "Some 1" None]
    fingerprint_ignores_browser [of "\<lambda>inputs. [inputs]" "[]" concat "''https://shop/p2''" "Some 1" None]
  by (simp add: policy_add_def INPUTS_def TASK_SOURCE_def fingerprint_def my_custom_policy_eq)

end
